theory Spec2Isabelle
  imports Main "HOL-Library.Monad_Syntax" "HOL-Library.Multiset"
    "HOL-Library.Char_ord" "HOL-Library.List_Lexorder"
begin

section \<open>The AVL tree of LAB 104, task 3 (avl_tree.hpp)\<close>

text \<open>
  The class template \<^verbatim>\<open>avl_tree<Key, Info>\<close> owns a tree of heap nodes through the
  pointer \<^verbatim>\<open>root\<close>.  No node is shared and nothing outside the class holds a pointer
  into the tree, so a \<^verbatim>\<open>node*\<close> is modelled by the value it points to: \<open>Null\<close> is
  \<^verbatim>\<open>nullptr\<close>, and \<open>Node key info left right height\<close> is a pointer to a node with
  these five members, in the order of the struct.  The member \<^verbatim>\<open>height\<close> is a C++
  \<^verbatim>\<open>int\<close>; it is modelled by a HOL integer (the height of a balanced tree is
  logarithmic in the number of nodes, far below the range of \<^verbatim>\<open>int\<close>).

  The key type is a linear order, as the operators \<^verbatim>\<open><\<close>, \<^verbatim>\<open>>\<close> and \<^verbatim>\<open>==\<close> of the
  template parameter are assumed to be.

  A function of the source that dereferences a pointer without testing it has undefined
  behaviour on \<^verbatim>\<open>nullptr\<close>.  Such a function returns an \<open>option\<close> here, and \<open>None\<close> is
  the null dereference.  Memory allocation is assumed to succeed.
\<close>

datatype ('k, 'v) node = Null | Node 'k 'v "('k, 'v) node" "('k, 'v) node" int

text \<open>\<^verbatim>\<open>int height(node* n) const { return n ? n->height : 0; }\<close>\<close>

fun height :: "('k, 'v) node \<Rightarrow> int" where
  "height Null = 0"
| "height (Node k i l r h) = h"

text \<open>\<^verbatim>\<open>n->height = 1 + std::max(height(n->left), height(n->right));\<close>\<close>

fun update_height :: "('k, 'v) node \<Rightarrow> ('k, 'v) node option" where
  "update_height Null = None"
| "update_height (Node k i l r h) = Some (Node k i l r (1 + max (height l) (height r)))"

text \<open>\<^verbatim>\<open>return height(n->left) - height(n->right);\<close>\<close>

fun balance_factor :: "('k, 'v) node \<Rightarrow> int option" where
  "balance_factor Null = None"
| "balance_factor (Node k i l r h) = Some (height l - height r)"

text \<open>
  \<^verbatim>\<open>rotate_right(y)\<close>: \<open>x = y->left\<close>, \<open>T2 = x->right\<close>, then \<open>x->right = y\<close>,
  \<open>y->left = T2\<close>, the height of \<open>y\<close> and then of \<open>x\<close> are recomputed, and \<open>x\<close> is
  returned.  Reading \<open>x->right\<close> needs both \<open>y\<close> and \<open>y->left\<close> to be non-null.
\<close>

fun rotate_right :: "('k, 'v) node \<Rightarrow> ('k, 'v) node option" where
  "rotate_right (Node yk yi (Node xk xi xl T2 xh) yr yh) =
     do {
       y \<leftarrow> update_height (Node yk yi T2 yr yh);
       update_height (Node xk xi xl y xh)
     }"
| "rotate_right _ = None"

text \<open>\<^verbatim>\<open>rotate_left(x)\<close>, the mirror image: \<open>y = x->right\<close>, \<open>T2 = y->left\<close>.\<close>

fun rotate_left :: "('k, 'v) node \<Rightarrow> ('k, 'v) node option" where
  "rotate_left (Node xk xi xl (Node yk yi T2 yr yh) xh) =
     do {
       x \<leftarrow> update_height (Node xk xi xl T2 xh);
       update_height (Node yk yi x yr yh)
     }"
| "rotate_left _ = None"

text \<open>
  The operator \<^verbatim>\<open>&&\<close> evaluates its right operand only when the left one is true;
  the right operands in \<^verbatim>\<open>rebalance\<close> dereference a child.
\<close>

definition and_then :: "bool \<Rightarrow> bool option \<Rightarrow> bool option" where
  "and_then a b = (if a then b else Some False)"

text \<open>
  \<^verbatim>\<open>rebalance(n)\<close>: the height of \<open>n\<close> is recomputed first, then the four cases are
  tried in the order of the source (left-left, right-right, left-right, right-left).
\<close>

fun rebalance :: "('k, 'v) node \<Rightarrow> ('k, 'v) node option" where
  "rebalance Null = None"
| "rebalance (Node k i l r h0) =
     do {
       n \<leftarrow> update_height (Node k i l r h0);
       balance \<leftarrow> balance_factor n;
       c1 \<leftarrow> and_then (balance > 1) (map_option (\<lambda>b. b \<ge> 0) (balance_factor l));
       if c1 then rotate_right n
       else do {
         c2 \<leftarrow> and_then (balance < - 1) (map_option (\<lambda>b. b \<le> 0) (balance_factor r));
         if c2 then rotate_left n
         else do {
           c3 \<leftarrow> and_then (balance > 1) (map_option (\<lambda>b. b < 0) (balance_factor l));
           if c3 then do {
             l' \<leftarrow> rotate_left l;
             rotate_right (Node k i l' r (height n))
           }
           else do {
             c4 \<leftarrow> and_then (balance < - 1) (map_option (\<lambda>b. b > 0) (balance_factor r));
             if c4 then do {
               r' \<leftarrow> rotate_right r;
               rotate_left (Node k i l r' (height n))
             }
             else Some n
           }
         }
       }
     }"

text \<open>
  \<^verbatim>\<open>min_node(n)\<close> walks down the left spine: \<open>while (current->left != nullptr)\<close>.
  The loop test dereferences \<open>current\<close>, so \<open>n\<close> itself must not be null.
\<close>

fun min_node :: "('k, 'v) node \<Rightarrow> ('k, 'v) node option" where
  "min_node Null = None"
| "min_node (Node k i l r h) = (if l \<noteq> Null then min_node l else Some (Node k i l r h))"

text \<open>
  \<^verbatim>\<open>find(key)\<close> is a loop from the root; the result is the pointer to the node found,
  or \<^verbatim>\<open>nullptr\<close>.  Equality is tested first, as in the source.
\<close>

fun find_node :: "('k::linorder, 'v) node \<Rightarrow> 'k \<Rightarrow> ('k, 'v) node" where
  "find_node Null key = Null"
| "find_node (Node k i l r h) key =
     (if key = k then Node k i l r h
      else if key < k then find_node l key
      else find_node r key)"

text \<open>
  The private \<^verbatim>\<open>insert(n, key, info)\<close>.  On an equal key the info is overwritten and
  the node returned as it is, without \<^verbatim>\<open>rebalance\<close>; every ancestor is rebalanced.
\<close>

fun insert_node :: "('k::linorder, 'v) node \<Rightarrow> 'k \<Rightarrow> 'v \<Rightarrow> ('k, 'v) node option" where
  "insert_node Null key info = Some (Node key info Null Null 1)"
| "insert_node (Node k i l r h) key info =
     (if key < k then do {
        l' \<leftarrow> insert_node l key info;
        rebalance (Node k i l' r h)
      }
      else if key > k then do {
        r' \<leftarrow> insert_node r key info;
        rebalance (Node k i l r' h)
      }
      else Some (Node k info l r h))"

text \<open>
  The private \<^verbatim>\<open>remove(n, key)\<close>.  With at most one child, \<open>temp\<close> is the left child if
  there is one and the right child otherwise; if \<open>temp\<close> is null the node is deleted and
  \<^verbatim>\<open>nullptr\<close> returned, else \<^verbatim>\<open>*n = *temp\<close> copies all five members of the child into
  \<open>n\<close>, which is then rebalanced.  With two children the key and info of
  \<^verbatim>\<open>min_node(n->right)\<close> are copied into \<open>n\<close> and that key is removed from the right
  subtree.
\<close>

fun remove_node :: "('k::linorder, 'v) node \<Rightarrow> 'k \<Rightarrow> ('k, 'v) node option" where
  "remove_node Null key = Some Null"
| "remove_node (Node k i l r h) key =
     (if key < k then do {
        l' \<leftarrow> remove_node l key;
        rebalance (Node k i l' r h)
      }
      else if key > k then do {
        r' \<leftarrow> remove_node r key;
        rebalance (Node k i l r' h)
      }
      else if l = Null \<or> r = Null then
        (let temp = (if l \<noteq> Null then l else r)
         in if temp = Null then Some Null else rebalance temp)
      else
        (case min_node r of
           None \<Rightarrow> None
         | Some Null \<Rightarrow> None
         | Some (Node tk ti tleft tright th) \<Rightarrow> do {
             r' \<leftarrow> remove_node r tk;
             rebalance (Node tk ti l r' h)
           }))"

text \<open>
  \<^verbatim>\<open>to_vector(n, vec)\<close> appends the entries of the subtree to \<open>vec\<close> in order: left
  subtree, the node, right subtree.
\<close>

fun to_vector :: "('k, 'v) node \<Rightarrow> ('k \<times> 'v) list \<Rightarrow> ('k \<times> 'v) list" where
  "to_vector Null vec = vec"
| "to_vector (Node k i l r h) vec = to_vector r (to_vector l vec @ [(k, i)])"

subsection \<open>The public interface\<close>

text \<open>An \<^verbatim>\<open>avl_tree\<close> object is its only member, the root pointer.\<close>

type_synonym ('k, 'v) avl_tree = "('k, 'v) node"

definition avl_tree :: "('k, 'v) avl_tree" where
  "avl_tree = Null"

definition insert_tree :: "('k::linorder, 'v) avl_tree \<Rightarrow> 'k \<Rightarrow> 'v \<Rightarrow> ('k, 'v) avl_tree option" where
  "insert_tree root key info = insert_node root key info"

definition remove_tree :: "('k::linorder, 'v) avl_tree \<Rightarrow> 'k \<Rightarrow> ('k, 'v) avl_tree option" where
  "remove_tree root key = remove_node root key"

text \<open>
  \<^verbatim>\<open>search(key, info)\<close>: the second component of the result is the caller's variable
  \<open>info\<close> after the call.
\<close>

definition search :: "('k::linorder, 'v) avl_tree \<Rightarrow> 'k \<Rightarrow> 'v \<Rightarrow> bool \<times> 'v" where
  "search root key info =
     (case find_node root key of
        Node k i l r h \<Rightarrow> (True, i)
      | Null \<Rightarrow> (False, info))"

text \<open>\<^verbatim>\<open>to_vector(vec)\<close> and \<^verbatim>\<open>empty()\<close>.\<close>

definition tree_to_vector :: "('k, 'v) avl_tree \<Rightarrow> ('k \<times> 'v) list \<Rightarrow> ('k \<times> 'v) list" where
  "tree_to_vector root vec = to_vector root vec"

definition empty_tree :: "('k, 'v) avl_tree \<Rightarrow> bool" where
  "empty_tree root = (root = Null)"

text \<open>
  \<^verbatim>\<open>size()\<close> fills a fresh vector and returns its length, cast to \<^verbatim>\<open>int\<close>.  The cast
  changes nothing below \<open>2^31\<close> entries, and the result is modelled by the length.
\<close>

definition size_tree :: "('k, 'v) avl_tree \<Rightarrow> int" where
  "size_tree root = int (length (tree_to_vector root []))"

text \<open>
  The mutable \<^verbatim>\<open>operator[](key)\<close>.  The third argument is the value of \<^verbatim>\<open>Info{}\<close>.  The
  result is the root after the call together with the info the returned reference
  refers to; the reference is to the member \<open>info\<close> of the node \<^verbatim>\<open>find(key)\<close>, and
  \<open>n->info\<close> dereferences a null pointer if the second \<open>find\<close> fails.
\<close>

definition subscript ::
  "('k::linorder, 'v) avl_tree \<Rightarrow> 'k \<Rightarrow> 'v \<Rightarrow> (('k, 'v) avl_tree \<times> 'v) option" where
  "subscript root key dflt =
     (case find_node root key of
        Node k i l r h \<Rightarrow> Some (root, i)
      | Null \<Rightarrow> do {
          root' \<leftarrow> insert_node root key dflt;
          (case find_node root' key of
             Node k i l r h \<Rightarrow> Some (root', i)
           | Null \<Rightarrow> None)
        })"

text \<open>
  An assignment through the reference returned by \<^verbatim>\<open>operator[](key)\<close> writes the
  member \<open>info\<close> of the node that \<open>find(key)\<close> reaches; nothing else of the tree
  changes.
\<close>

fun assign_info :: "('k::linorder, 'v) node \<Rightarrow> 'k \<Rightarrow> 'v \<Rightarrow> ('k, 'v) node" where
  "assign_info Null key v = Null"
| "assign_info (Node k i l r h) key v =
     (if key = k then Node k v l r h
      else if key < k then Node k i (assign_info l key v) r h
      else Node k i l (assign_info r key v) h)"

text \<open>
  The read-only \<^verbatim>\<open>operator[](key) const\<close>.  The third argument is the function's local
  \<^verbatim>\<open>static Info dummy\<close>, a default-initialised object that nothing writes.
\<close>

definition subscript_const :: "('k::linorder, 'v) avl_tree \<Rightarrow> 'k \<Rightarrow> 'v \<Rightarrow> 'v" where
  "subscript_const root key dummy =
     (case find_node root key of
        Node k i l r h \<Rightarrow> i
      | Null \<Rightarrow> dummy)"

subsection \<open>maxinfo_selector\<close>

text \<open>
  \<^verbatim>\<open>maxinfo_selector(tree, cnt)\<close> copies the entries into a vector, sorts it with
  \<^verbatim>\<open>std::sort\<close> under the comparison \<open>a.second > b.second\<close> and cuts it to \<open>cnt\<close>
  elements if it is longer.  \<^verbatim>\<open>std::sort\<close> is the standard library's; it is a
  parameter \<open>std_sort\<close> of the model.
\<close>

definition maxinfo_selector ::
  "((('k \<times> 'v::linorder) \<Rightarrow> ('k \<times> 'v) \<Rightarrow> bool) \<Rightarrow> ('k \<times> 'v) list \<Rightarrow> ('k \<times> 'v) list)
     \<Rightarrow> ('k, 'v) avl_tree \<Rightarrow> nat \<Rightarrow> ('k \<times> 'v) list" where
  "maxinfo_selector std_sort tree cnt =
     (let v = tree_to_vector tree [];
          v = std_sort (\<lambda>a b. snd a > snd b) v
      in if cnt < length v then take cnt v else v)"

text \<open>
  What the C++ standard promises of \<^verbatim>\<open>std::sort(first, last, cmp)\<close>: for a comparison
  that is a strict weak ordering, the range afterwards is a permutation of the range
  before and no element is \<open>cmp\<close>-less than an element before it.  The order of
  equivalent elements is not promised (that is \<^verbatim>\<open>std::stable_sort\<close>).
\<close>

definition strict_weak_ordering :: "('a \<Rightarrow> 'a \<Rightarrow> bool) \<Rightarrow> bool" where
  "strict_weak_ordering cmp =
     ((\<forall>a. \<not> cmp a a) \<and> (\<forall>a b c. cmp a b \<and> cmp b c \<longrightarrow> cmp a c)
      \<and> (\<forall>a b c. \<not> cmp a b \<and> \<not> cmp b c \<longrightarrow> \<not> cmp a c))"

definition std_sort_contract :: "(('a \<Rightarrow> 'a \<Rightarrow> bool) \<Rightarrow> 'a list \<Rightarrow> 'a list) \<Rightarrow> bool" where
  "std_sort_contract std_sort =
     (\<forall>cmp xs. strict_weak_ordering cmp \<longrightarrow>
        mset (std_sort cmp xs) = mset xs
        \<and> sorted_wrt (\<lambda>a b. \<not> cmp b a) (std_sort cmp xs))"

text \<open>
  Two sorting functions within that contract.  Both are insertion sorts; the first puts
  an element in front of the elements equivalent to it, so it keeps equivalent elements
  in their order in the input (it is stable), the second puts it behind them, so
  equivalent elements come out in reverse order.
\<close>

fun insert_before :: "('a \<Rightarrow> 'a \<Rightarrow> bool) \<Rightarrow> 'a \<Rightarrow> 'a list \<Rightarrow> 'a list" where
  "insert_before cmp x [] = [x]"
| "insert_before cmp x (y # ys) =
     (if cmp y x then y # insert_before cmp x ys else x # y # ys)"

definition stable_sort :: "('a \<Rightarrow> 'a \<Rightarrow> bool) \<Rightarrow> 'a list \<Rightarrow> 'a list" where
  "stable_sort cmp xs = foldr (insert_before cmp) xs []"

fun insert_behind :: "('a \<Rightarrow> 'a \<Rightarrow> bool) \<Rightarrow> 'a \<Rightarrow> 'a list \<Rightarrow> 'a list" where
  "insert_behind cmp x [] = [x]"
| "insert_behind cmp x (y # ys) =
     (if cmp x y then x # y # ys else y # insert_behind cmp x ys)"

definition reversing_sort :: "('a \<Rightarrow> 'a \<Rightarrow> bool) \<Rightarrow> 'a list \<Rightarrow> 'a list" where
  "reversing_sort cmp xs = foldr (insert_behind cmp) xs []"

subsection \<open>count_words\<close>

text \<open>
  Characters are bytes.  In the default \<^verbatim>\<open>"C"\<close> locale \<^verbatim>\<open>isspace\<close> holds of the space
  and of the codes 9 to 13, \<^verbatim>\<open>isalnum\<close> of the ASCII digits and letters, and
  \<^verbatim>\<open>tolower\<close> maps the upper-case ASCII letters to lower case.
\<close>

definition isspace :: "char \<Rightarrow> bool" where
  "isspace c = (let n = (of_char c :: nat) in n = 32 \<or> (9 \<le> n \<and> n \<le> 13))"

definition isalnum :: "char \<Rightarrow> bool" where
  "isalnum c =
     (let n = (of_char c :: nat)
      in (48 \<le> n \<and> n \<le> 57) \<or> (65 \<le> n \<and> n \<le> 90) \<or> (97 \<le> n \<and> n \<le> 122))"

definition tolower :: "char \<Rightarrow> char" where
  "tolower c =
     (let n = (of_char c :: nat) in if 65 \<le> n \<and> n \<le> 90 then char_of (n + 32) else c)"

text \<open>
  \<^verbatim>\<open>is >> word\<close> on the rest of the stream: leading whitespace is skipped; if the stream
  ends there the extraction fails (\<open>None\<close>), else the characters up to the next
  whitespace or the end are the word.  The result is the word and the rest of the stream.
\<close>

definition read_word :: "string \<Rightarrow> (string \<times> string) option" where
  "read_word is =
     (let s = dropWhile isspace is
      in if s = [] then None
         else Some (takeWhile (\<lambda>c. \<not> isspace c) s, dropWhile (\<lambda>c. \<not> isspace c) s))"

text \<open>The inner loop \<^verbatim>\<open>for (char c : word)\<close>, from the empty \<open>cleaned_word\<close>.\<close>

definition clean_word :: "string \<Rightarrow> string" where
  "clean_word word =
     fold (\<lambda>c cleaned_word. if isalnum c then cleaned_word @ [tolower c] else cleaned_word)
       word []"

text \<open>
  The counters of \<^verbatim>\<open>count_words\<close> are of the C++ type \<^verbatim>\<open>int\<close>, 32 bits in two's
  complement.  \<open>int32 x\<close> is the value of that type congruent to \<open>x\<close> modulo \<open>2^32\<close>:
  the integers from \<open>- 2^31\<close> to \<open>2^31 - 1\<close> are left as they are, the others wrap
  around.
\<close>

definition int32 :: "int \<Rightarrow> int" where
  "int32 x = (x + 2147483648) mod 4294967296 - 2147483648"

text \<open>
  \<^verbatim>\<open>word_count[cleaned_word]++\<close>: the reference that \<^verbatim>\<open>operator[]\<close> returns is read and
  written once.  The increment of a counter that holds \<open>2^31 - 1\<close> overflows; the
  language leaves the result undefined, and the machine instruction the compilers emit
  for it wraps around to \<open>- 2^31\<close>, which is what the model does.
\<close>

definition increment ::
  "(string, int) avl_tree \<Rightarrow> string \<Rightarrow> (string, int) avl_tree option" where
  "increment word_count cleaned_word =
     do {
       (root, i) \<leftarrow> subscript word_count cleaned_word 0;
       Some (assign_info root cleaned_word (int32 (i + 1)))
     }"

text \<open>The loop \<^verbatim>\<open>while (is >> word)\<close>; it ends when the extraction fails.\<close>

function count_words_loop ::
  "string \<Rightarrow> (string, int) avl_tree \<Rightarrow> (string, int) avl_tree option" where
  "count_words_loop is word_count =
     (case read_word is of
        None \<Rightarrow> Some word_count
      | Some (word, is') \<Rightarrow>
          (let cleaned_word = clean_word word
           in if cleaned_word \<noteq> [] then do {
                word_count' \<leftarrow> increment word_count cleaned_word;
                count_words_loop is' word_count'
              }
              else count_words_loop is' word_count))"
  by pat_completeness auto
termination
proof -
  have shorter: "length y < length is" if r: "read_word is = Some (x, y)" for "is" x y
  proof -
    define s where "s = dropWhile isspace is"
    from r have "s \<noteq> []" and y: "y = dropWhile (\<lambda>c. \<not> isspace c) s"
      by (auto simp: read_word_def s_def Let_def split: if_splits)
    then obtain c cs where s: "s = c # cs" by (cases s) auto
    then have "\<not> isspace c" using hd_dropWhile [of isspace "is"] by (simp add: s_def)
    then have "length y \<le> length cs" using y s by (simp add: length_dropWhile_le)
    moreover have "length s \<le> length is" by (simp add: s_def length_dropWhile_le)
    ultimately show ?thesis using s by simp
  qed
  show ?thesis
    by (relation "measure (\<lambda>(is, word_count). length is)") (auto dest: shorter)
qed

declare count_words_loop.simps [simp del]

definition count_words :: "string \<Rightarrow> (string, int) avl_tree option" where
  "count_words is = count_words_loop is avl_tree"

section \<open>Specification\<close>

text \<open>The content of a tree: what \<^verbatim>\<open>to_vector\<close> puts into an empty vector.\<close>

definition entries :: "('k, 'v) node \<Rightarrow> ('k \<times> 'v) list" where
  "entries t = to_vector t []"

text \<open>The cached height of every node is one more than the larger height of its children.\<close>

fun heights_cached :: "('k, 'v) node \<Rightarrow> bool" where
  "heights_cached Null = True"
| "heights_cached (Node k i l r h) =
     (h = 1 + max (height l) (height r) \<and> heights_cached l \<and> heights_cached r)"

text \<open>The number of nodes on the longest path from a node down to a leaf.\<close>

fun depth :: "('k, 'v) node \<Rightarrow> nat" where
  "depth Null = 0"
| "depth (Node k i l r h) = 1 + max (depth l) (depth r)"

text \<open>At every node the heights of the children differ by at most one.\<close>

fun balanced :: "('k, 'v) node \<Rightarrow> bool" where
  "balanced Null = True"
| "balanced (Node k i l r h) =
     (\<bar>height l - height r\<bar> \<le> 1 \<and> balanced l \<and> balanced r)"

definition avl :: "('k, 'v) node \<Rightarrow> bool" where
  "avl t = (heights_cached t \<and> balanced t)"

text \<open>The keys of the in-order traversal are strictly ascending.\<close>

definition ordered :: "('k::linorder, 'v) node \<Rightarrow> bool" where
  "ordered t = sorted_wrt (<) (map fst (entries t))"

text \<open>
  On a list of entries: \<open>put_entry\<close> sets the info of a key, keeping the list in key
  order, and \<open>drop_key\<close> takes a key out.
\<close>

definition put_entry :: "'k::linorder \<Rightarrow> 'v \<Rightarrow> ('k \<times> 'v) list \<Rightarrow> ('k \<times> 'v) list" where
  "put_entry key info xs =
     filter (\<lambda>p. fst p < key) xs @ (key, info) # filter (\<lambda>p. key < fst p) xs"

definition drop_key :: "'k \<Rightarrow> ('k \<times> 'v) list \<Rightarrow> ('k \<times> 'v) list" where
  "drop_key key xs = filter (\<lambda>p. fst p \<noteq> key) xs"

text \<open>\<open>set_info\<close> replaces the info of a key where the key occurs.\<close>

definition set_info :: "'k \<Rightarrow> 'v \<Rightarrow> ('k \<times> 'v) list \<Rightarrow> ('k \<times> 'v) list" where
  "set_info key v xs = map (\<lambda>p. if fst p = key then (key, v) else p) xs"

text \<open>Sequences of calls of the public \<^verbatim>\<open>insert\<close> and \<^verbatim>\<open>remove\<close>.\<close>

datatype ('k, 'v) operation = Insert 'k 'v | Remove 'k

fun apply_operation ::
  "('k::linorder, 'v) avl_tree \<Rightarrow> ('k, 'v) operation \<Rightarrow> ('k, 'v) avl_tree option" where
  "apply_operation root (Insert key info) = insert_tree root key info"
| "apply_operation root (Remove key) = remove_tree root key"

fun run :: "('k::linorder, 'v) avl_tree \<Rightarrow> ('k, 'v) operation list \<Rightarrow> ('k, 'v) avl_tree option" where
  "run root [] = Some root"
| "run root (op # ops) = do { root' \<leftarrow> apply_operation root op; run root' ops }"

text \<open>
  The words of \<^verbatim>\<open>count_words\<close>, as the specification describes them: the input is split
  into its whitespace-delimited tokens (the maximal runs of characters that are not
  whitespace), every character that is not alphanumeric is taken out of each token, the
  rest is put in lower case, and the tokens that are empty then are left out.
\<close>

fun split_whitespace :: "string \<Rightarrow> string list" where
  "split_whitespace [] = []"
| "split_whitespace (c # cs) =
     (if isspace c then split_whitespace cs
      else if cs \<noteq> [] \<and> \<not> isspace (hd cs) then
        (case split_whitespace cs of
           w # ws \<Rightarrow> (c # w) # ws
         | [] \<Rightarrow> [[c]])
      else [c] # split_whitespace cs)"

definition cleaned_tokens :: "string \<Rightarrow> string list" where
  "cleaned_tokens is =
     filter (\<lambda>w. w \<noteq> []) (map (\<lambda>w. map tolower (filter isalnum w)) (split_whitespace is))"

text \<open>The counter of each word of a list is incremented, one word after the other.\<close>

fun increment_all :: "string list \<Rightarrow> (string, int) avl_tree \<Rightarrow> (string, int) avl_tree option" where
  "increment_all [] t = Some t"
| "increment_all (w # ws) t = do { t' \<leftarrow> increment t w; increment_all ws t' }"

text \<open>The counter of a word in a tree, 0 if the word is not there.\<close>

definition count_in :: "(string, int) avl_tree \<Rightarrow> string \<Rightarrow> int" where
  "count_in t w = (case map_of (entries t) w of None \<Rightarrow> 0 | Some c \<Rightarrow> c)"

text \<open>The key at the root, if there is a root.\<close>

fun root_key :: "('k, 'v) avl_tree \<Rightarrow> 'k option" where
  "root_key Null = None"
| "root_key (Node k i l r h) = Some k"

section \<open>Properties\<close>

subsection \<open>The traversal\<close>

lemma to_vector_append: "to_vector t vec = vec @ to_vector t []"
proof (induction t arbitrary: vec)
  case Null
  show ?case by simp
next
  case (Node k i l r h)
  show ?case
    using Node.IH(1) [of vec] Node.IH(2) [of "to_vector l vec @ [(k, i)]"]
      Node.IH(2) [of "to_vector l [] @ [(k, i)]"]
    by simp
qed

lemma entries_Null [simp]: "entries Null = []"
  by (simp add: entries_def)

lemma entries_Node [simp]: "entries (Node k i l r h) = entries l @ (k, i) # entries r"
  unfolding entries_def using to_vector_append [of r "to_vector l [] @ [(k, i)]"] by simp

subsection \<open>Heights and rebalancing\<close>

lemma avl_Null [simp]: "avl Null"
  by (simp add: avl_def)

lemma avl_Node [simp]:
  "avl (Node k i l r h) =
     (h = 1 + max (height l) (height r) \<and> \<bar>height l - height r\<bar> \<le> 1 \<and> avl l \<and> avl r)"
  by (auto simp: avl_def)

text \<open>Where the heights are cached as they should be, they are the heights of the trees.\<close>

lemma heights_cached_depth: "heights_cached t \<Longrightarrow> height t = int (depth t)"
  by (induction t) auto

lemma height_nonneg: "avl t \<Longrightarrow> 0 \<le> height t"
  by (induction t) auto

lemma height_pos: "avl (Node k i l r h) \<Longrightarrow> 1 \<le> h"
  using height_nonneg [of l] height_nonneg [of r] by auto

lemma height_0_iff: "avl t \<Longrightarrow> height t = 0 \<longleftrightarrow> t = Null"
  using height_pos by (cases t) fastforce+

lemma rebalance_id:
  assumes "avl l" "avl r" "\<bar>height l - height r\<bar> \<le> 1"
  shows "rebalance (Node k i l r h0) = Some (Node k i l r (1 + max (height l) (height r)))"
  using assms by (auto simp: and_then_def)

lemma rebalance_left_heavy:
  assumes "avl l" "avl r" "height l = height r + 2"
  shows "\<exists>t'. rebalance (Node k i l r h0) = Some t' \<and> avl t'
           \<and> entries t' = entries l @ (k, i) # entries r
           \<and> (height t' = height l \<or> height t' = height l + 1)"
proof -
  from assms height_nonneg [of r] height_0_iff [of l] obtain lk li ll lr lh
    where l: "l = Node lk li ll lr lh" by (cases l) auto
  show ?thesis
  proof (cases "height ll \<ge> height lr")
    case True
    with assms l show ?thesis by (auto simp: and_then_def)
  next
    case False
    with assms l height_nonneg [of ll] height_0_iff [of lr] obtain mk mi ml mr mh
      where "lr = Node mk mi ml mr mh" by (cases lr) auto
    with False assms l show ?thesis by (auto simp: and_then_def)
  qed
qed

lemma rebalance_right_heavy:
  assumes "avl l" "avl r" "height r = height l + 2"
  shows "\<exists>t'. rebalance (Node k i l r h0) = Some t' \<and> avl t'
           \<and> entries t' = entries l @ (k, i) # entries r
           \<and> (height t' = height r \<or> height t' = height r + 1)"
proof -
  from assms height_nonneg [of l] height_0_iff [of r] obtain rk ri rl rr rh
    where r: "r = Node rk ri rl rr rh" by (cases r) auto
  show ?thesis
  proof (cases "height rl \<le> height rr")
    case True
    with assms r show ?thesis by (auto simp: and_then_def)
  next
    case False
    with assms r height_nonneg [of rr] height_0_iff [of rl] obtain mk mi ml mr mh
      where "rl = Node mk mi ml mr mh" by (cases rl) auto
    with False assms r show ?thesis by (auto simp: and_then_def)
  qed
qed

declare rebalance.simps [simp del]

lemma rebalance_ok:
  assumes "avl l" "avl r" "\<bar>height l - height r\<bar> \<le> 2"
  shows "\<exists>t'. rebalance (Node k i l r h0) = Some t' \<and> avl t'
           \<and> entries t' = entries l @ (k, i) # entries r
           \<and> (height t' = 1 + max (height l) (height r)
                \<or> \<bar>height l - height r\<bar> = 2 \<and> height t' = max (height l) (height r))"
proof -
  consider "\<bar>height l - height r\<bar> \<le> 1" | "height l = height r + 2" | "height r = height l + 2"
    using assms(3) by linarith
  then show ?thesis
  proof cases
    case 1
    with assms rebalance_id [of l r k i h0] show ?thesis by simp
  next
    case 2
    with rebalance_left_heavy [OF assms(1,2) 2, of k i h0] show ?thesis by auto
  next
    case 3
    with rebalance_right_heavy [OF assms(1,2) 3, of k i h0] show ?thesis by auto
  qed
qed

subsection \<open>Key order, insertion and removal\<close>

lemma ordered_Null [simp]: "ordered Null"
  by (simp add: ordered_def)

lemma ordered_Node [simp]:
  "ordered (Node k i l r h) =
     (ordered l \<and> ordered r \<and> (\<forall>p\<in>set (entries l). fst p < k) \<and> (\<forall>p\<in>set (entries r). k < fst p))"
  by (auto simp: ordered_def sorted_wrt_append dest: order.strict_trans)

lemma filter_none: "\<forall>p\<in>set xs. \<not> P p \<Longrightarrow> filter P xs = []"
  by (induction xs) auto

lemma filter_all: "\<forall>p\<in>set xs. P p \<Longrightarrow> filter P xs = xs"
  by (induction xs) auto

lemma put_entry_left:
  assumes "key < k" "\<forall>p\<in>set R. k < fst p"
  shows "put_entry key info (L @ (k, i) # R) = put_entry key info L @ (k, i) # R"
proof -
  have "filter (\<lambda>p. fst p < key) R = []" using assms by (intro filter_none) auto
  moreover have "filter (\<lambda>p. key < fst p) R = R" using assms by (intro filter_all) auto
  ultimately show ?thesis using assms by (simp add: put_entry_def)
qed

lemma put_entry_right:
  assumes "k < key" "\<forall>p\<in>set L. fst p < k"
  shows "put_entry key info (L @ (k, i) # R) = L @ (k, i) # put_entry key info R"
proof -
  have "filter (\<lambda>p. fst p < key) L = L" using assms by (intro filter_all) auto
  moreover have "filter (\<lambda>p. key < fst p) L = []" using assms by (intro filter_none) auto
  ultimately show ?thesis using assms by (simp add: put_entry_def)
qed

lemma put_entry_here:
  assumes "\<forall>p\<in>set L. fst p < k" "\<forall>p\<in>set R. k < fst p"
  shows "put_entry k info (L @ (k, i) # R) = L @ (k, info) # R"
proof -
  have "filter (\<lambda>p. fst p < k) L = L" "filter (\<lambda>p. k < fst p) R = R"
    using assms by (auto intro: filter_all)
  moreover have "filter (\<lambda>p. k < fst p) L = []" "filter (\<lambda>p. fst p < k) R = []"
    using assms by (auto intro!: filter_none)
  ultimately show ?thesis by (simp add: put_entry_def)
qed

lemma insert_node_ok:
  assumes "ordered t" "avl t"
  shows "\<exists>t'. insert_node t key info = Some t' \<and> avl t'
           \<and> entries t' = put_entry key info (entries t)
           \<and> (height t' = height t \<or> height t' = height t + 1)"
  using assms
proof (induction t)
  case Null
  show ?case by (simp add: put_entry_def)
next
  case (Node k i l r h)
  consider "key < k" | "k < key" | "key = k" by (rule linorder_cases)
  then show ?case
  proof cases
    case 1
    from Node.IH(1) Node.prems obtain l' where l':
      "insert_node l key info = Some l'" "avl l'" "entries l' = put_entry key info (entries l)"
      "height l' = height l \<or> height l' = height l + 1" by auto
    from l' Node.prems have "\<bar>height l' - height r\<bar> \<le> 2" by auto
    from rebalance_ok [OF l'(2) _ this, of k i h] Node.prems obtain t' where t':
      "rebalance (Node k i l' r h) = Some t'" "avl t'"
      "entries t' = entries l' @ (k, i) # entries r"
      "height t' = 1 + max (height l') (height r)
         \<or> \<bar>height l' - height r\<bar> = 2 \<and> height t' = max (height l') (height r)" by auto
    have "entries t' = put_entry key info (entries (Node k i l r h))"
      using t'(3) l'(3) 1 Node.prems(1) by (simp add: put_entry_left)
    moreover have "height t' = height (Node k i l r h) \<or> height t' = height (Node k i l r h) + 1"
      using t'(4) l'(4) Node.prems(2) by auto
    ultimately show ?thesis using 1 l'(1) t'(1,2) by simp
  next
    case 2
    from Node.IH(2) Node.prems obtain r' where r':
      "insert_node r key info = Some r'" "avl r'" "entries r' = put_entry key info (entries r)"
      "height r' = height r \<or> height r' = height r + 1" by auto
    from r' Node.prems have "\<bar>height l - height r'\<bar> \<le> 2" by auto
    from rebalance_ok [OF _ r'(2) this, of k i h] Node.prems obtain t' where t':
      "rebalance (Node k i l r' h) = Some t'" "avl t'"
      "entries t' = entries l @ (k, i) # entries r'"
      "height t' = 1 + max (height l) (height r')
         \<or> \<bar>height l - height r'\<bar> = 2 \<and> height t' = max (height l) (height r')" by auto
    have "entries t' = put_entry key info (entries (Node k i l r h))"
      using t'(3) r'(3) 2 Node.prems(1) by (simp add: put_entry_right)
    moreover have "height t' = height (Node k i l r h) \<or> height t' = height (Node k i l r h) + 1"
      using t'(4) r'(4) Node.prems(2) by auto
    moreover have "\<not> key < k" using 2 by simp
    ultimately show ?thesis using 2 r'(1) t'(1,2) by simp
  next
    case 3
    with Node.prems show ?thesis by (simp add: put_entry_here)
  qed
qed


lemma min_node_first:
  assumes "r \<noteq> Null"
  shows "\<exists>tk ti a b c rest. min_node r = Some (Node tk ti a b c) \<and> entries r = (tk, ti) # rest"
  using assms
proof (induction r)
  case Null
  then show ?case by simp
next
  case (Node k i l r h)
  show ?case
  proof (cases "l = Null")
    case True
    then show ?thesis by simp
  next
    case False
    with Node.IH(1) obtain tk ti a b c rest
      where "min_node l = Some (Node tk ti a b c)" "entries l = (tk, ti) # rest" by blast
    with False show ?thesis by simp
  qed
qed

lemma drop_key_absent: "\<forall>p\<in>set xs. fst p \<noteq> key \<Longrightarrow> drop_key key xs = xs"
  by (simp add: drop_key_def filter_all)

lemma drop_key_left:
  fixes key :: "'k::linorder"
  assumes "key < k" "\<forall>p\<in>set R. k < fst p"
  shows "drop_key key (L @ (k, i) # R) = drop_key key L @ (k, i) # R"
proof -
  have "drop_key key R = R" using assms by (intro drop_key_absent) fastforce
  then show ?thesis using assms by (simp add: drop_key_def)
qed

lemma drop_key_right:
  fixes key :: "'k::linorder"
  assumes "k < key" "\<forall>p\<in>set L. fst p < k"
  shows "drop_key key (L @ (k, i) # R) = L @ (k, i) # drop_key key R"
proof -
  have "drop_key key L = L" using assms by (intro drop_key_absent) fastforce
  then show ?thesis using assms by (simp add: drop_key_def)
qed

lemma drop_key_here:
  fixes k :: "'k::linorder"
  assumes "\<forall>p\<in>set L. fst p < k" "\<forall>p\<in>set R. k < fst p"
  shows "drop_key k (L @ (k, i) # R) = L @ R"
proof -
  have "drop_key k L = L" using assms(1) by (intro drop_key_absent) fastforce
  moreover have "drop_key k R = R" using assms(2) by (intro drop_key_absent) fastforce
  ultimately show ?thesis by (simp add: drop_key_def)
qed

lemma drop_key_first:
  fixes k :: "'k::linorder"
  assumes "sorted_wrt (<) (map fst ((k, i) # rest))"
  shows "drop_key k ((k, i) # rest) = rest"
proof -
  have "drop_key k rest = rest" using assms by (intro drop_key_absent) fastforce
  then show ?thesis by (simp add: drop_key_def)
qed

lemma remove_node_ok:
  assumes "ordered t" "avl t"
  shows "\<exists>t'. remove_node t key = Some t' \<and> avl t'
           \<and> entries t' = drop_key key (entries t)
           \<and> (height t' = height t \<or> height t' = height t - 1)"
  using assms
proof (induction t arbitrary: key)
  case Null
  show ?case by (simp add: drop_key_def)
next
  case (Node k i l r h)
  consider "key < k" | "k < key" | "key = k" "l = Null \<or> r = Null" | "key = k" "l \<noteq> Null" "r \<noteq> Null"
    using linorder_cases [of key k] by blast
  then show ?case
  proof cases
    case 1
    from Node.IH(1) [of key] Node.prems obtain l' where l':
      "remove_node l key = Some l'" "avl l'" "entries l' = drop_key key (entries l)"
      "height l' = height l \<or> height l' = height l - 1" by auto
    from l' Node.prems have "\<bar>height l' - height r\<bar> \<le> 2" by auto
    from rebalance_ok [OF l'(2) _ this, of k i h] Node.prems obtain t' where t':
      "rebalance (Node k i l' r h) = Some t'" "avl t'"
      "entries t' = entries l' @ (k, i) # entries r"
      "height t' = 1 + max (height l') (height r)
         \<or> \<bar>height l' - height r\<bar> = 2 \<and> height t' = max (height l') (height r)" by auto
    have "entries t' = drop_key key (entries (Node k i l r h))"
      using t'(3) l'(3) 1 Node.prems(1) by (simp add: drop_key_left)
    moreover have "height t' = height (Node k i l r h) \<or> height t' = height (Node k i l r h) - 1"
      using t'(4) l'(4) Node.prems(2) by auto
    ultimately show ?thesis using 1 l'(1) t'(1,2) by simp
  next
    case 2
    from Node.IH(2) [of key] Node.prems obtain r' where r':
      "remove_node r key = Some r'" "avl r'" "entries r' = drop_key key (entries r)"
      "height r' = height r \<or> height r' = height r - 1" by auto
    from r' Node.prems have "\<bar>height l - height r'\<bar> \<le> 2" by auto
    from rebalance_ok [OF _ r'(2) this, of k i h] Node.prems obtain t' where t':
      "rebalance (Node k i l r' h) = Some t'" "avl t'"
      "entries t' = entries l @ (k, i) # entries r'"
      "height t' = 1 + max (height l) (height r')
         \<or> \<bar>height l - height r'\<bar> = 2 \<and> height t' = max (height l) (height r')" by auto
    have "entries t' = drop_key key (entries (Node k i l r h))"
      using t'(3) r'(3) 2 Node.prems(1) by (simp add: drop_key_right)
    moreover have "height t' = height (Node k i l r h) \<or> height t' = height (Node k i l r h) - 1"
      using t'(4) r'(4) Node.prems(2) by auto
    moreover have "\<not> key < k" using 2 by simp
    ultimately show ?thesis using 2 r'(1) t'(1,2) by simp
  next
    case 3
    define temp where "temp = (if l \<noteq> Null then l else r)"
    have rm: "remove_node (Node k i l r h) key = (if temp = Null then Some Null else rebalance temp)"
      using 3 by (simp add: temp_def)
    have ent: "drop_key key (entries (Node k i l r h)) = entries temp"
      using 3 Node.prems(1) by (auto simp: temp_def drop_key_here)
    have avl_temp: "avl temp" using Node.prems(2) by (simp add: temp_def)
    have ht: "height temp = h - 1"
      using 3 Node.prems(2) height_nonneg [of l] height_nonneg [of r] by (auto simp: temp_def)
    show ?thesis
    proof (cases temp)
      case Null
      with rm ent ht show ?thesis by (simp del: remove_node.simps)
    next
      case (Node tk ti a b c)
      with avl_temp have "rebalance temp = Some temp" by (simp add: rebalance_id)
      with rm ent ht avl_temp Node show ?thesis by (simp del: remove_node.simps)
    qed
  next
    case 4
    from min_node_first [OF 4(3)] obtain tk ti a b c rest where
      m: "min_node r = Some (Node tk ti a b c)" "entries r = (tk, ti) # rest" by blast
    from Node.IH(2) [of tk] Node.prems obtain r' where r':
      "remove_node r tk = Some r'" "avl r'" "entries r' = drop_key tk (entries r)"
      "height r' = height r \<or> height r' = height r - 1" by auto
    have "ordered r" using Node.prems(1) by simp
    then have "sorted_wrt (<) (map fst ((tk, ti) # rest))" using m(2) by (simp add: ordered_def)
    from drop_key_first [OF this] have "entries r' = rest" using r'(3) m(2) by simp
    from r' Node.prems have "\<bar>height l - height r'\<bar> \<le> 2" by auto
    from rebalance_ok [OF _ r'(2) this, of tk ti h] Node.prems obtain t' where t':
      "rebalance (Node tk ti l r' h) = Some t'" "avl t'"
      "entries t' = entries l @ (tk, ti) # entries r'"
      "height t' = 1 + max (height l) (height r')
         \<or> \<bar>height l - height r'\<bar> = 2 \<and> height t' = max (height l) (height r')" by auto
    have "entries t' = drop_key key (entries (Node k i l r h))"
      using t'(3) \<open>entries r' = rest\<close> m(2) 4(1) Node.prems(1) by (simp add: drop_key_here)
    moreover have "height t' = height (Node k i l r h) \<or> height t' = height (Node k i l r h) - 1"
      using t'(4) r'(4) Node.prems(2) by auto
    ultimately show ?thesis using 4 m(1) r'(1) t'(1,2) by simp
  qed
qed


lemma sorted_put_entry:
  fixes key :: "'k::linorder" and xs :: "('k \<times> 'v) list"
  assumes "sorted_wrt (<) (map fst xs)"
  shows "sorted_wrt (<) (map fst (put_entry key info xs))"
proof -
  have "sorted_wrt (<) (map fst (filter P xs))" for P :: "'k \<times> 'v \<Rightarrow> bool"
    using assms by (simp add: sorted_wrt_map sorted_wrt_filter)
  then show ?thesis
    by (auto simp: put_entry_def sorted_wrt_append dest: order.strict_trans)
qed

lemma sorted_drop_key:
  fixes key :: "'k::linorder"
  assumes "sorted_wrt (<) (map fst xs)"
  shows "sorted_wrt (<) (map fst (drop_key key xs))"
  using assms by (simp add: drop_key_def sorted_wrt_map sorted_wrt_filter)

lemma insert_node_invariant:
  assumes "ordered t" "avl t"
  shows "\<exists>t'. insert_node t key info = Some t' \<and> ordered t' \<and> avl t'"
proof -
  from insert_node_ok [OF assms, of key info] obtain t' where
    "insert_node t key info = Some t'" "avl t'" "entries t' = put_entry key info (entries t)"
    by blast
  with assms(1) sorted_put_entry [of "entries t" key info] show ?thesis
    by (simp add: ordered_def)
qed

lemma remove_node_invariant:
  assumes "ordered t" "avl t"
  shows "\<exists>t'. remove_node t key = Some t' \<and> ordered t' \<and> avl t'"
proof -
  from remove_node_ok [OF assms, of key] obtain t' where
    "remove_node t key = Some t'" "avl t'" "entries t' = drop_key key (entries t)"
    by blast
  with assms(1) sorted_drop_key [of "entries t" key] show ?thesis
    by (simp add: ordered_def)
qed

lemma run_invariant:
  assumes "ordered t" "avl t"
  shows "\<exists>t'. run t ops = Some t' \<and> ordered t' \<and> avl t'"
  using assms
proof (induction ops arbitrary: t)
  case Nil
  then show ?case by simp
next
  case (Cons op ops)
  have "\<exists>t1. apply_operation t op = Some t1 \<and> ordered t1 \<and> avl t1"
  proof (cases op)
    case (Insert key info)
    with insert_node_invariant [OF Cons.prems] show ?thesis by (simp add: insert_tree_def)
  next
    case (Remove key)
    with remove_node_invariant [OF Cons.prems] show ?thesis by (simp add: remove_tree_def)
  qed
  then obtain t1 where t1: "apply_operation t op = Some t1" "ordered t1" "avl t1" by blast
  from Cons.IH [OF t1(2,3)] t1(1) show ?case by simp
qed

subsection \<open>Lookup\<close>

lemma map_of_filter_fst:
  "map_of (filter (\<lambda>p. P (fst p)) xs) k = (if P k then map_of xs k else None)"
  by (induction xs) auto

lemma map_of_put_entry:
  "map_of (put_entry key info xs) k = (if k = key then Some info else map_of xs k)"
proof -
  have 1: "map_of (filter (\<lambda>p. fst p < key) xs) k = (if k < key then map_of xs k else None)"
    using map_of_filter_fst [of "\<lambda>a. a < key" xs k] by simp
  have 2: "map_of (filter (\<lambda>p. key < fst p) xs) k = (if key < k then map_of xs k else None)"
    using map_of_filter_fst [of "\<lambda>a. key < a" xs k] by simp
  show ?thesis
    using 1 2 by (auto simp: put_entry_def map_add_def split: option.splits)
qed

lemma map_of_drop_key:
  "map_of (drop_key key xs) k = (if k = key then None else map_of xs k)"
  using map_of_filter_fst [of "\<lambda>a. a \<noteq> key" xs k] by (simp add: drop_key_def)

lemma map_of_absent: "\<forall>p\<in>set xs. fst p \<noteq> k \<Longrightarrow> map_of xs k = None"
  by (induction xs) auto

lemma find_node_map_of:
  assumes "ordered t"
  shows "map_of (entries t) key = (case find_node t key of Null \<Rightarrow> None | Node k i l r h \<Rightarrow> Some i)"
  using assms
proof (induction t)
  case Null
  show ?case by simp
next
  case (Node k i l r h)
  from Node.prems have ord: "ordered l" "ordered r"
    and lt: "\<forall>p\<in>set (entries l). fst p < k" and gt: "\<forall>p\<in>set (entries r). k < fst p"
    by simp_all
  consider "key = k" | "key < k" | "k < key" using linorder_cases [of key k] by blast
  then show ?case
  proof cases
    case 1
    have "map_of (entries l) key = None" using lt 1 by (intro map_of_absent) fastforce
    with 1 show ?thesis by (simp add: map_add_def)
  next
    case 2
    have "map_of (entries r) key = None" using gt 2 by (intro map_of_absent) fastforce
    with 2 Node.IH(1) [OF ord(1)] show ?thesis
      by (auto simp: map_add_def split: option.splits)
  next
    case 3
    have "map_of (entries l) key = None" using lt 3 by (intro map_of_absent) fastforce
    with 3 Node.IH(2) [OF ord(2)] show ?thesis
      by (auto simp: map_add_def split: option.splits)
  qed
qed

lemma search_map_of:
  assumes "ordered t"
  shows "search t key d = (case map_of (entries t) key of None \<Rightarrow> (False, d) | Some i \<Rightarrow> (True, i))"
  using find_node_map_of [OF assms, of key]
  by (cases "find_node t key") (auto simp: search_def)

lemma find_node_absent:
  assumes "ordered t" "key \<notin> fst ` set (entries t)"
  shows "find_node t key = Null"
proof -
  from assms(2) have "map_of (entries t) key = None" by (simp add: map_of_eq_None_iff)
  with find_node_map_of [OF assms(1), of key] show ?thesis
    by (cases "find_node t key") auto
qed

lemma remove_node_absent:
  assumes "ordered t" "avl t" "key \<notin> fst ` set (entries t)"
  shows "remove_node t key = Some t"
  using assms
proof (induction t)
  case Null
  show ?case by simp
next
  case (Node k i l r h)
  from Node.prems(3) have ne: "key \<noteq> k" and nl: "key \<notin> fst ` set (entries l)"
    and nr: "key \<notin> fst ` set (entries r)" by auto
  from Node.prems(2) have rb: "rebalance (Node k i l r h) = Some (Node k i l r h)"
    using rebalance_id [of l r k i h] by simp
  show ?case
  proof (cases "key < k")
    case True
    with Node.IH(1) [OF _ _ nl] Node.prems rb show ?thesis by simp
  next
    case False
    with ne have "k < key" by simp
    with Node.IH(2) [OF _ _ nr] Node.prems rb False show ?thesis by simp
  qed
qed

subsection \<open>Writing through a reference\<close>

lemma height_assign_info [simp]: "height (assign_info t key v) = height t"
  by (cases t) auto

lemma avl_assign_info [simp]: "avl (assign_info t key v) = avl t"
  by (induction t) auto

lemma set_info_absent: "\<forall>p\<in>set xs. fst p \<noteq> key \<Longrightarrow> set_info key v xs = xs"
  by (induction xs) (auto simp: set_info_def)

lemma entries_assign_info:
  assumes "ordered t"
  shows "entries (assign_info t key v) = set_info key v (entries t)"
  using assms
proof (induction t)
  case Null
  show ?case by (simp add: set_info_def)
next
  case (Node k i l r h)
  from Node.prems have ord: "ordered l" "ordered r"
    and lt: "\<forall>p\<in>set (entries l). fst p < k" and gt: "\<forall>p\<in>set (entries r). k < fst p"
    by simp_all
  consider "key = k" | "key < k" | "k < key" using linorder_cases [of key k] by blast
  then show ?case
  proof cases
    case 1
    have "set_info key v (entries l) = entries l" using lt 1 by (intro set_info_absent) fastforce
    moreover have "set_info key v (entries r) = entries r"
      using gt 1 by (intro set_info_absent) fastforce
    ultimately show ?thesis using 1 by (simp add: set_info_def)
  next
    case 2
    have "set_info key v (entries r) = entries r" using gt 2 by (intro set_info_absent) fastforce
    moreover have "key \<noteq> k" using 2 by simp
    ultimately show ?thesis using 2 Node.IH(1) [OF ord(1)] by (simp add: set_info_def)
  next
    case 3
    have "set_info key v (entries l) = entries l" using lt 3 by (intro set_info_absent) fastforce
    moreover have "key \<noteq> k" "\<not> key < k" using 3 by auto
    ultimately show ?thesis using 3 Node.IH(2) [OF ord(2)] by (simp add: set_info_def)
  qed
qed

lemma map_fst_set_info [simp]: "map fst (set_info key v xs) = map fst xs"
  by (induction xs) (auto simp: set_info_def)

lemma map_of_set_info:
  "map_of (set_info key v xs) k = (if k = key \<and> key \<in> fst ` set xs then Some v else map_of xs k)"
  by (induction xs) (force simp: set_info_def)+

lemma ordered_assign_info:
  assumes "ordered t"
  shows "ordered (assign_info t key v)"
  using assms entries_assign_info [OF assms, of key v] by (simp add: ordered_def)

lemma insert_node_present:
  assumes "ordered t" "avl t" "key \<in> fst ` set (entries t)"
  shows "insert_node t key info = Some (assign_info t key info)"
  using assms
proof (induction t)
  case Null
  then show ?case by simp
next
  case (Node k i l r h)
  from Node.prems have ord: "ordered l" "ordered r" and avls: "avl l" "avl r"
    and lt: "\<forall>p\<in>set (entries l). fst p < k" and gt: "\<forall>p\<in>set (entries r). k < fst p"
    by simp_all
  consider "key = k" | "key < k" | "k < key" using linorder_cases [of key k] by blast
  then show ?case
  proof cases
    case 1
    then show ?thesis by simp
  next
    case 2
    with gt Node.prems(3) have "key \<in> fst ` set (entries l)" by fastforce
    from Node.IH(1) [OF ord(1) avls(1) this]
    have "insert_node l key info = Some (assign_info l key info)" .
    moreover have "rebalance (Node k i (assign_info l key info) r h)
        = Some (Node k i (assign_info l key info) r h)"
      using Node.prems(2) rebalance_id [of "assign_info l key info" r k i h] by simp
    moreover have "key \<noteq> k" using 2 by simp
    ultimately show ?thesis using 2 by simp
  next
    case 3
    with lt Node.prems(3) have "key \<in> fst ` set (entries r)" by fastforce
    from Node.IH(2) [OF ord(2) avls(2) this]
    have "insert_node r key info = Some (assign_info r key info)" .
    moreover have "rebalance (Node k i l (assign_info r key info) h)
        = Some (Node k i l (assign_info r key info) h)"
      using Node.prems(2) rebalance_id [of l "assign_info r key info" k i h] by simp
    moreover have "\<not> key < k" "key \<noteq> k" using 3 by auto
    ultimately show ?thesis using 3 by simp
  qed
qed


subsection \<open>The subscript operator\<close>

lemma subscript_ok:
  assumes "ordered t" "avl t"
  shows "\<exists>t' i. subscript t key dflt = Some (t', i) \<and> ordered t' \<and> avl t'
           \<and> map_of (entries t') key = Some i
           \<and> (if key \<in> fst ` set (entries t) then t' = t
               else i = dflt \<and> entries t' = put_entry key dflt (entries t))"
proof (cases "find_node t key")
  case Null
  with find_node_map_of [OF assms(1), of key] have absent: "key \<notin> fst ` set (entries t)"
    by (simp add: map_of_eq_None_iff)
  from insert_node_ok [OF assms, of key dflt] obtain t' where t':
    "insert_node t key dflt = Some t'" "avl t'" "entries t' = put_entry key dflt (entries t)"
    by blast
  from assms(1) t'(3) have ord: "ordered t'"
    using sorted_put_entry [of "entries t" key dflt] by (simp add: ordered_def)
  have m: "map_of (entries t') key = Some dflt" by (simp add: t'(3) map_of_put_entry)
  with find_node_map_of [OF ord, of key] obtain k l r h
    where "find_node t' key = Node k dflt l r h" by (cases "find_node t' key") auto
  with Null t' ord m absent show ?thesis by (simp add: subscript_def)
next
  case (Node k i l r h)
  with find_node_map_of [OF assms(1), of key] have m: "map_of (entries t) key = Some i" by simp
  then have "key \<in> fst ` set (entries t)" by (metis map_of_eq_None_iff option.distinct(1))
  with Node m assms show ?thesis by (simp add: subscript_def)
qed

subsection \<open>Counting words\<close>

lemma clean_word_eq: "clean_word w = map tolower (filter isalnum w)"
proof -
  have "fold (\<lambda>c cleaned_word. if isalnum c then cleaned_word @ [tolower c] else cleaned_word) w acc
      = acc @ map tolower (filter isalnum w)" for acc
    by (induction w arbitrary: acc) auto
  then show ?thesis by (simp add: clean_word_def)
qed

lemma read_word_Nil [simp]: "read_word [] = None"
  by (simp add: read_word_def)

lemma read_word_Cons:
  "read_word (c # cs) =
     (if isspace c then read_word cs
      else Some (c # takeWhile (\<lambda>c. \<not> isspace c) cs, dropWhile (\<lambda>c. \<not> isspace c) cs))"
  by (simp add: read_word_def Let_def)

lemma split_whitespace_read_word:
  "split_whitespace is =
     (case read_word is of None \<Rightarrow> [] | Some (word, is') \<Rightarrow> word # split_whitespace is')"
proof (induction "is")
  case Nil
  show ?case by simp
next
  case (Cons c cs)
  show ?case
  proof (cases "isspace c")
    case True
    with Cons.IH show ?thesis by (simp add: read_word_Cons)
  next
    case False
    show ?thesis
    proof (cases cs)
      case Nil
      with False show ?thesis by (simp add: read_word_Cons)
    next
      case (Cons d ds)
      show ?thesis
      proof (cases "isspace d")
        case True
        with False Cons show ?thesis by (simp add: read_word_Cons)
      next
        case nsp: False
        with Cons Cons.IH have
          "split_whitespace cs = (d # takeWhile (\<lambda>c. \<not> isspace c) ds)
             # split_whitespace (dropWhile (\<lambda>c. \<not> isspace c) ds)"
          by (simp add: read_word_Cons)
        with False nsp Cons show ?thesis by (simp add: read_word_Cons)
      qed
    qed
  qed
qed

lemma count_words_loop_eq:
  "count_words_loop is t = increment_all (cleaned_tokens is) t"
proof (induction "is" t rule: count_words_loop.induct)
  case (1 "is" word_count)
  show ?case
  proof (cases "read_word is")
    case None
    then have "cleaned_tokens is = []"
      using split_whitespace_read_word [of "is"] by (simp add: cleaned_tokens_def)
    moreover have "count_words_loop is word_count = Some word_count"
      using None by (subst count_words_loop.simps) simp
    ultimately show ?thesis by simp
  next
    case (Some p)
    obtain word is' where p: "p = (word, is')" by (cases p)
    with Some have rw: "read_word is = Some (word, is')" by simp
    then have sp: "split_whitespace is = word # split_whitespace is'"
      using split_whitespace_read_word [of "is"] by simp
    show ?thesis
    proof (cases "clean_word word = []")
      case True
      have "count_words_loop is word_count = count_words_loop is' word_count"
        using rw True by (subst count_words_loop.simps) simp
      also have "\<dots> = increment_all (cleaned_tokens is') word_count"
        using True Some p by (intro "1.IH"(2) [of p word is' "clean_word word"]) simp_all
      also have "cleaned_tokens is' = cleaned_tokens is"
        using sp True by (simp add: cleaned_tokens_def clean_word_eq)
      finally show ?thesis .
    next
      case False
      have ct: "cleaned_tokens is = clean_word word # cleaned_tokens is'"
        using sp False by (simp add: cleaned_tokens_def clean_word_eq)
      have step: "count_words_loop is word_count =
          increment word_count (clean_word word) \<bind> count_words_loop is'"
        using rw False by (subst count_words_loop.simps) simp
      show ?thesis
      proof (cases "increment word_count (clean_word word)")
        case None
        with step ct show ?thesis by simp
      next
        case (Some t')
        have "count_words_loop is' t' = increment_all (cleaned_tokens is') t'"
          using False rw p Some
          by (intro "1.IH"(1) [of p word is' "clean_word word" t']) simp_all
        with step ct Some show ?thesis by simp
      qed
    qed
  qed
qed

lemma int32_id: "- 2147483648 \<le> x \<Longrightarrow> x < 2147483648 \<Longrightarrow> int32 x = x"
  by (simp add: int32_def)

lemma int32_add_left: "int32 (int32 x + y) = int32 (x + y)"
proof -
  have "int32 x + y + 2147483648 = (x + 2147483648) mod 4294967296 + y"
    by (simp add: int32_def)
  then have "(int32 x + y + 2147483648) mod 4294967296
      = ((x + 2147483648) mod 4294967296 + y) mod 4294967296"
    by (rule arg_cong [where f = "\<lambda>z. z mod 4294967296"])
  also have "\<dots> = (x + 2147483648 + y) mod 4294967296"
    by (rule mod_add_left_eq)
  also have "x + 2147483648 + y = x + y + 2147483648" by simp
  finally show ?thesis
    unfolding int32_def [of "int32 x + y"] int32_def [of "x + y"] by simp
qed

lemma increment_ok:
  assumes "ordered t" "avl t"
  shows "\<exists>t'. increment t w = Some t' \<and> ordered t' \<and> avl t'
           \<and> map_of (entries t') = (map_of (entries t))(w \<mapsto> int32 (count_in t w + 1))"
proof -
  from subscript_ok [OF assms, of w 0] obtain t1 i where s:
    "subscript t w 0 = Some (t1, i)" "ordered t1" "avl t1" "map_of (entries t1) w = Some i"
    "if w \<in> fst ` set (entries t) then t1 = t
     else i = 0 \<and> entries t1 = put_entry w 0 (entries t)" by blast
  let ?t' = "assign_info t1 w (int32 (i + 1))"
  have mem: "w \<in> fst ` set (entries t1)" using s(4) by (metis map_of_eq_None_iff option.distinct(1))
  have "map_of (entries ?t') = (map_of (entries t1))(w \<mapsto> int32 (i + 1))"
    using mem by (auto simp: fun_eq_iff entries_assign_info [OF s(2)] map_of_set_info)
  moreover have "(map_of (entries t1))(w \<mapsto> int32 (i + 1))
      = (map_of (entries t))(w \<mapsto> int32 (count_in t w + 1))"
  proof (cases "w \<in> fst ` set (entries t)")
    case True
    with s(4,5) show ?thesis by (simp add: count_in_def)
  next
    case False
    then have "map_of (entries t) w = None" by (simp add: map_of_eq_None_iff)
    with False s(5) show ?thesis by (auto simp: fun_eq_iff count_in_def map_of_put_entry)
  qed
  ultimately show ?thesis
    using s(1,2,3) by (simp add: increment_def ordered_assign_info)
qed

lemma increment_all_ok:
  assumes "ordered t" "avl t"
  shows "\<exists>t'. increment_all ws t = Some t' \<and> ordered t' \<and> avl t'
           \<and> dom (map_of (entries t')) = dom (map_of (entries t)) \<union> set ws
           \<and> (\<forall>w. count_in t' w =
                (if w \<in> set ws then int32 (count_in t w + int (count_list ws w))
                 else count_in t w))"
  using assms
proof (induction ws arbitrary: t)
  case Nil
  then show ?case by simp
next
  case (Cons a ws)
  from increment_ok [OF Cons.prems, of a] obtain t1 where t1:
    "increment t a = Some t1" "ordered t1" "avl t1"
    "map_of (entries t1) = (map_of (entries t))(a \<mapsto> int32 (count_in t a + 1))" by blast
  from Cons.IH [OF t1(2,3)] obtain t' where t':
    "increment_all ws t1 = Some t'" "ordered t'" "avl t'"
    "dom (map_of (entries t')) = dom (map_of (entries t1)) \<union> set ws"
    "\<forall>w. count_in t' w =
       (if w \<in> set ws then int32 (count_in t1 w + int (count_list ws w)) else count_in t1 w)"
    by blast
  have c1: "count_in t1 w = (if w = a then int32 (count_in t a + 1) else count_in t w)" for w
    by (simp add: count_in_def t1(4))
  have "count_in t' w =
      (if w \<in> set (a # ws) then int32 (count_in t w + int (count_list (a # ws) w))
       else count_in t w)" for w
  proof (cases "w = a")
    case True
    show ?thesis
    proof (cases "a \<in> set ws")
      case True
      with \<open>w = a\<close> t'(5) c1 [of a] show ?thesis
        by (simp add: int32_add_left add.assoc)
    next
      case False
      then have "count_list ws a = 0" by (simp add: count_list_0_iff)
      with False \<open>w = a\<close> t'(5) c1 [of a] show ?thesis by simp
    qed
  next
    case False
    with t'(5) c1 [of w] show ?thesis by simp
  qed
  moreover have "dom (map_of (entries t')) = dom (map_of (entries t)) \<union> set (a # ws)"
    using t'(4) t1(4) by auto
  ultimately show ?case using t1(1) t'(1,2,3) by simp
qed

lemma split_whitespace_tokens:
  "w \<in> set (split_whitespace is) \<Longrightarrow> w \<noteq> [] \<and> (\<forall>c\<in>set w. \<not> isspace c) \<and> set w \<subseteq> set is"
proof (induction "is" arbitrary: w)
  case Nil
  then show ?case by simp
next
  case (Cons c cs)
  show ?case
  proof (cases "isspace c")
    case True
    with Cons show ?thesis by auto
  next
    case False
    show ?thesis
    proof (cases "cs \<noteq> [] \<and> \<not> isspace (hd cs)")
      case glue: True
      show ?thesis
      proof (cases "split_whitespace cs")
        case Nil
        with False glue Cons.prems show ?thesis by simp
      next
        case (Cons v vs)
        with Cons.IH [of v] have v: "v \<noteq> []" "\<forall>c\<in>set v. \<not> isspace c" "set v \<subseteq> set cs" by auto
        from Cons False glue Cons.prems have "w = c # v \<or> w \<in> set vs" by auto
        then show ?thesis
        proof
          assume "w = c # v"
          with v False show ?thesis by auto
        next
          assume "w \<in> set vs"
          with Cons Cons.IH [of w] show ?thesis by auto
        qed
      qed
    next
      case sep: False
      with False Cons.prems have "w = [c] \<or> w \<in> set (split_whitespace cs)" by auto
      then show ?thesis
      proof
        assume "w = [c]"
        with False show ?thesis by simp
      next
        assume "w \<in> set (split_whitespace cs)"
        with Cons.IH [of w] show ?thesis by auto
      qed
    qed
  qed
qed

lemma concat_split_whitespace:
  "concat (split_whitespace is) = filter (\<lambda>c. \<not> isspace c) is"
proof (induction "is")
  case Nil
  show ?case by simp
next
  case (Cons c cs)
  then show ?case by (cases "split_whitespace cs") (auto split: list.splits)
qed

lemma cleaned_tokens_no_alnum:
  assumes "\<forall>c\<in>set is. \<not> isalnum c"
  shows "cleaned_tokens is = []"
proof -
  have "filter isalnum w = []" if "w \<in> set (split_whitespace is)" for w
    using split_whitespace_tokens [OF that] assms by (auto simp: filter_empty_conv)
  then show ?thesis by (auto simp: cleaned_tokens_def filter_empty_conv)
qed

lemma count_words_general:
  "\<exists>t. count_words is = Some t \<and> ordered t \<and> avl t
     \<and> fst ` set (entries t) = set (cleaned_tokens is)
     \<and> (\<forall>w d. search t w d =
          (if w \<in> set (cleaned_tokens is)
           then (True, int32 (int (count_list (cleaned_tokens is) w))) else (False, d)))"
proof -
  let ?ws = "cleaned_tokens is"
  have "ordered (avl_tree :: (string, int) avl_tree)" "avl (avl_tree :: (string, int) avl_tree)"
    by (simp_all add: avl_tree_def)
  from increment_all_ok [OF this, of ?ws] obtain t where t:
    "increment_all ?ws avl_tree = Some t" "ordered t" "avl t"
    "dom (map_of (entries t)) = set ?ws"
    "\<forall>w. w \<in> set ?ws \<longrightarrow> count_in t w = int32 (int (count_list ?ws w))"
    by (auto simp: avl_tree_def count_in_def)
  have keys: "fst ` set (entries t) = set ?ws"
    using t(4) by (simp add: dom_map_of_conv_image_fst)
  have "search t w d =
      (if w \<in> set ?ws then (True, int32 (int (count_list ?ws w))) else (False, d))"
    for w d
  proof (cases "map_of (entries t) w")
    case None
    with t(4) [symmetric] have "w \<notin> set ?ws" by (simp add: domIff)
    with None show ?thesis by (simp add: search_map_of [OF t(2)])
  next
    case (Some c)
    with t(4) [symmetric] have mem: "w \<in> set ?ws" by (simp add: domIff)
    with t(5) have "count_in t w = int32 (int (count_list ?ws w))" by blast
    with Some have "c = int32 (int (count_list ?ws w))" by (simp add: count_in_def)
    with mem Some show ?thesis by (simp add: search_map_of [OF t(2)])
  qed
  with t keys show ?thesis by (simp add: count_words_def count_words_loop_eq)
qed

text \<open>One word, again and again: the counter after \<open>n\<close> occurrences.\<close>

lemma increment_single:
  "increment (Node w c Null Null 1) w = Some (Node w (int32 (c + 1)) Null Null 1)"
  by (simp add: increment_def subscript_def)

lemma increment_all_replicate:
  "increment_all (replicate n w) (Node w c Null Null 1)
     = Some (Node w (if n = 0 then c else int32 (c + int n)) Null Null 1)"
proof (induction n arbitrary: c)
  case 0
  show ?case by simp
next
  case (Suc n)
  have "increment_all (replicate (Suc n) w) (Node w c Null Null 1)
      = increment_all (replicate n w) (Node w (int32 (c + 1)) Null Null 1)"
    by (simp add: increment_single)
  also have "\<dots> = Some (Node w (if n = 0 then int32 (c + 1)
      else int32 (int32 (c + 1) + int n)) Null Null 1)"
    by (rule Suc.IH)
  also have "(if n = 0 then int32 (c + 1) else int32 (int32 (c + 1) + int n))
      = int32 (c + int (Suc n))"
    using int32_add_left [of "c + 1" "int n"] by (simp add: algebra_simps)
  finally show ?case by simp
qed

lemma increment_all_replicate_Null:
  assumes "0 < n"
  shows "increment_all (replicate n w) Null = Some (Node w (int32 (int n)) Null Null 1)"
proof -
  from assms obtain m where n: "n = Suc m" by (cases n) auto
  have "increment Null w = Some (Node w (int32 1) Null Null 1)"
    by (simp add: increment_def subscript_def)
  then have "increment_all (replicate n w) Null
      = increment_all (replicate m w) (Node w (int32 1) Null Null 1)"
    by (simp add: n)
  also have "\<dots> = Some (Node w (if m = 0 then int32 1 else int32 (int32 1 + int m)) Null Null 1)"
    by (rule increment_all_replicate)
  also have "(if m = 0 then int32 1 else int32 (int32 1 + int m)) = int32 (int n)"
    using int32_add_left [of 1 "int m"] by (simp add: n algebra_simps)
  finally show ?thesis .
qed

lemma cleaned_tokens_a:
  "cleaned_tokens (concat (replicate n ''a '')) = replicate n ''a''"
proof (induction n)
  case 0
  show ?case by (simp add: cleaned_tokens_def)
next
  case (Suc n)
  let ?rest = "concat (replicate n ''a '')"
  have sp: "isspace CHR '' ''" "\<not> isspace CHR ''a''" "isalnum CHR ''a''"
    "tolower CHR ''a'' = CHR ''a''"
    by (simp_all add: isspace_def isalnum_def tolower_def)
  have "split_whitespace (CHR ''a'' # CHR '' '' # ?rest) = ''a'' # split_whitespace ?rest"
    using sp by simp
  with Suc.IH sp show ?case by (simp add: cleaned_tokens_def)
qed

lemma count_list_replicate: "count_list (replicate n x) x = n"
  by (induction n) auto

lemma count_words_a:
  assumes "0 < n"
  shows "count_words (concat (replicate n ''a '')) = Some (Node ''a'' (int32 (int n)) Null Null 1)"
  by (simp add: count_words_def count_words_loop_eq cleaned_tokens_a avl_tree_def
      increment_all_replicate_Null [OF assms])

lemma count_words_no_alnum:
  assumes "\<forall>c\<in>set is. \<not> isalnum c"
  shows "count_words is = Some Null"
  by (simp add: count_words_def count_words_loop_eq cleaned_tokens_no_alnum [OF assms] avl_tree_def)

lemma count_words_hello: 
  "map_option (\<lambda>t. tree_to_vector t []) (count_words ''Hello, world! World... hello!'')
     = Some [(''hello'', 2), (''world'', 2)]"
  by code_simp

lemma count_words_punctuation: "count_words ''!!! ??? ... ,,, ---'' = Some Null"
  by code_simp


subsection \<open>Sorting and maxinfo_selector\<close>

lemma swo_asym: "strict_weak_ordering cmp \<Longrightarrow> cmp a b \<Longrightarrow> \<not> cmp b a"
  unfolding strict_weak_ordering_def by blast

lemma swo_negtrans: "strict_weak_ordering cmp \<Longrightarrow> \<not> cmp a b \<Longrightarrow> \<not> cmp b c \<Longrightarrow> \<not> cmp a c"
  unfolding strict_weak_ordering_def by blast

lemma mset_insert_before [simp]: "mset (insert_before cmp x ys) = add_mset x (mset ys)"
  by (induction ys) auto

lemma mset_insert_behind [simp]: "mset (insert_behind cmp x ys) = add_mset x (mset ys)"
  by (induction ys) auto

lemma set_insert_before [simp]: "set (insert_before cmp x ys) = insert x (set ys)"
  using mset_insert_before [of cmp x ys] by (metis set_mset_add_mset_insert set_mset_mset)

lemma set_insert_behind [simp]: "set (insert_behind cmp x ys) = insert x (set ys)"
  using mset_insert_behind [of cmp x ys] by (metis set_mset_add_mset_insert set_mset_mset)

lemma sorted_insert_before:
  assumes "strict_weak_ordering cmp" "sorted_wrt (\<lambda>a b. \<not> cmp b a) ys"
  shows "sorted_wrt (\<lambda>a b. \<not> cmp b a) (insert_before cmp x ys)"
  using assms(2)
proof (induction ys)
  case Nil
  show ?case by simp
next
  case (Cons y ys)
  show ?case
  proof (cases "cmp y x")
    case True
    with Cons swo_asym [OF assms(1) True] show ?thesis by auto
  next
    case False
    have "\<not> cmp z x" if "z \<in> set ys" for z
      using that Cons.prems swo_negtrans [OF assms(1), of z y x] False by auto
    with False Cons.prems show ?thesis by auto
  qed
qed

lemma sorted_insert_behind:
  assumes "strict_weak_ordering cmp" "sorted_wrt (\<lambda>a b. \<not> cmp b a) ys"
  shows "sorted_wrt (\<lambda>a b. \<not> cmp b a) (insert_behind cmp x ys)"
  using assms(2)
proof (induction ys)
  case Nil
  show ?case by simp
next
  case (Cons y ys)
  show ?case
  proof (cases "cmp x y")
    case True
    have "\<not> cmp z x" if "z \<in> set ys" for z
      using that Cons.prems swo_negtrans [OF assms(1), of z y x] swo_asym [OF assms(1) True]
      by auto
    with True Cons.prems swo_asym [OF assms(1) True] show ?thesis by auto
  next
    case False
    with Cons show ?thesis by auto
  qed
qed

text \<open>Both insertion sorts keep the promise of \<^verbatim>\<open>std::sort\<close>.\<close>

lemma stable_sort_contract: "std_sort_contract stable_sort"
proof -
  have "mset (stable_sort cmp xs) = mset xs" for cmp :: "'a \<Rightarrow> 'a \<Rightarrow> bool" and xs
    by (induction xs) (simp_all add: stable_sort_def)
  moreover have "sorted_wrt (\<lambda>a b. \<not> cmp b a) (stable_sort cmp xs)"
    if "strict_weak_ordering cmp" for cmp :: "'a \<Rightarrow> 'a \<Rightarrow> bool" and xs
    using sorted_insert_before [OF that] by (induction xs) (simp_all add: stable_sort_def)
  ultimately show ?thesis by (simp add: std_sort_contract_def)
qed

lemma reversing_sort_contract: "std_sort_contract reversing_sort"
proof -
  have "mset (reversing_sort cmp xs) = mset xs" for cmp :: "'a \<Rightarrow> 'a \<Rightarrow> bool" and xs
    by (induction xs) (simp_all add: reversing_sort_def)
  moreover have "sorted_wrt (\<lambda>a b. \<not> cmp b a) (reversing_sort cmp xs)"
    if "strict_weak_ordering cmp" for cmp :: "'a \<Rightarrow> 'a \<Rightarrow> bool" and xs
    using sorted_insert_behind [OF that] by (induction xs) (simp_all add: reversing_sort_def)
  ultimately show ?thesis by (simp add: std_sort_contract_def)
qed

lemma by_info_swo: "strict_weak_ordering (\<lambda>a b. snd a > (snd b :: 'v::linorder))"
  by (auto simp: strict_weak_ordering_def)

text \<open>
  \<open>stable_sort\<close> is stable: the entries of any one info value are in the result in the
  order they have in the input.
\<close>

lemma filter_insert_before:
  assumes "\<forall>y\<in>set ys. P y \<and> P x \<longrightarrow> \<not> cmp y x"
  shows "filter P (insert_before cmp x ys) = (if P x then x # filter P ys else filter P ys)"
  using assms by (induction ys) auto

lemma stable_sort_stable:
  fixes xs :: "('k \<times> 'v::linorder) list"
  shows "filter (\<lambda>p. snd p = v) (stable_sort (\<lambda>a b. snd a > snd b) xs) = filter (\<lambda>p. snd p = v) xs"
proof (induction xs)
  case Nil
  show ?case by (simp add: stable_sort_def)
next
  case (Cons x xs)
  have "filter (\<lambda>p. snd p = v) (stable_sort (\<lambda>a b. snd a > snd b) (x # xs))
      = filter (\<lambda>p. snd p = v) (insert_before (\<lambda>a b. snd a > snd b) x (stable_sort (\<lambda>a b. snd a > snd b) xs))"
    by (simp add: stable_sort_def)
  also have "\<dots> = (if snd x = v then x # filter (\<lambda>p. snd p = v) (stable_sort (\<lambda>a b. snd a > snd b) xs)
      else filter (\<lambda>p. snd p = v) (stable_sort (\<lambda>a b. snd a > snd b) xs))"
    by (rule filter_insert_before) auto
  finally show ?case using Cons.IH by simp
qed

text \<open>
  What \<^verbatim>\<open>maxinfo_selector\<close> returns with any sorting function that keeps the promise:
  \<open>min cnt size\<close> entries of the tree, in descending order of info, none of them
  with an info smaller than that of an entry left out.
\<close>

lemma maxinfo_selector_contract:
  fixes t :: "('k, 'v::linorder) avl_tree"
  assumes "std_sort_contract std_sort"
  shows "\<exists>rest. length (maxinfo_selector std_sort t cnt) = min cnt (length (tree_to_vector t []))
           \<and> sorted_wrt (\<lambda>a b. snd a \<ge> snd b) (maxinfo_selector std_sort t cnt)
           \<and> mset (maxinfo_selector std_sort t cnt) + mset rest = mset (tree_to_vector t [])
           \<and> (\<forall>p\<in>set (maxinfo_selector std_sort t cnt). \<forall>q\<in>set rest. snd q \<le> snd p)"
proof -
  define v where "v = std_sort (\<lambda>a b. snd a > snd b) (tree_to_vector t [])"
  have m: "mset v = mset (tree_to_vector t [])"
    and srt: "sorted_wrt (\<lambda>a b. \<not> snd b > snd a) v"
    using assms by_info_swo [where 'v = 'v] unfolding std_sort_contract_def v_def by blast+
  have sel: "maxinfo_selector std_sort t cnt = take cnt v"
    by (simp add: maxinfo_selector_def v_def [symmetric] Let_def)
  have len: "length v = length (tree_to_vector t [])" using m by (rule mset_eq_length)
  have s2: "sorted_wrt (\<lambda>a b. snd a \<ge> snd b) v"
    using srt by (simp add: not_less)
  have "sorted_wrt (\<lambda>a b. snd a \<ge> snd b) (take cnt v @ drop cnt v)" using s2 by simp
  then have "sorted_wrt (\<lambda>a b. snd a \<ge> snd b) (take cnt v)"
    and "\<forall>p\<in>set (take cnt v). \<forall>q\<in>set (drop cnt v). snd q \<le> snd p"
    unfolding sorted_wrt_append by auto
  moreover have "mset (take cnt v) + mset (drop cnt v) = mset (tree_to_vector t [])"
    using m by (metis append_take_drop_id mset_append)
  ultimately show ?thesis
    unfolding sel using len by (intro exI [of _ "drop cnt v"]) (simp add: min_def)
qed

text \<open>
  If no two entries have the same info, the promise determines the result: every sorting
  function that keeps it gives what the stable one gives.
\<close>

lemma descending_unique:
  fixes v w :: "('k \<times> 'v::linorder) list"
  assumes "mset v = mset w" "distinct (map snd w)"
    "sorted_wrt (\<lambda>a b. snd a \<ge> snd b) v" "sorted_wrt (\<lambda>a b. snd a \<ge> snd b) w"
  shows "v = w"
proof -
  have dv: "distinct (map snd v)"
    using assms(1,2) by (metis distinct_map mset_eq_setD distinct_count_atmost_1 set_mset_mset
        mset_map mset_eq_imp_distinct_iff)
  have sets: "set v = set w" using assms(1) by (rule mset_eq_setD)
  have "sorted (rev (map snd v))" "sorted (rev (map snd w))"
    using assms(3,4) by (simp_all add: sorted_wrt_rev sorted_wrt_map flip: rev_map)
  moreover have "distinct (rev (map snd v))" "distinct (rev (map snd w))"
    using dv assms(2) by simp_all
  moreover have "set (rev (map snd v)) = set (rev (map snd w))" using sets by simp
  ultimately have "rev (map snd v) = rev (map snd w)" by (intro sorted_distinct_set_unique)
  then have eq: "map snd v = map snd w" by simp
  have "inj_on snd (set v \<union> set w)" using assms(2) sets by (simp add: distinct_map)
  with eq show ?thesis by (simp add: inj_on_map_eq_map)
qed

lemma std_sort_distinct_infos:
  fixes xs :: "('k \<times> 'v::linorder) list"
  assumes "std_sort_contract std_sort" "distinct (map snd xs)"
  shows "std_sort (\<lambda>a b. snd a > snd b) xs = stable_sort (\<lambda>a b. snd a > snd b) xs"
proof -
  let ?cmp = "\<lambda>a b :: 'k \<times> 'v. snd a > snd b"
  have 1: "mset (std_sort ?cmp xs) = mset xs" "sorted_wrt (\<lambda>a b. \<not> ?cmp b a) (std_sort ?cmp xs)"
    using assms(1) by_info_swo [where 'v = 'v] unfolding std_sort_contract_def by blast+
  have 2: "mset (stable_sort ?cmp xs) = mset xs"
    "sorted_wrt (\<lambda>a b. \<not> ?cmp b a) (stable_sort ?cmp xs)"
    using stable_sort_contract by_info_swo [where 'v = 'v] unfolding std_sort_contract_def by blast+
  have d: "distinct (map snd (stable_sort ?cmp xs))"
    using 2(1) assms(2) by (metis mset_eq_imp_distinct_iff mset_map)
  show ?thesis
    using 1 2 d by (intro descending_unique) (simp_all add: not_less)
qed

lemma maxinfo_selector_distinct_infos:
  fixes t :: "('k, 'v::linorder) avl_tree"
  assumes "std_sort_contract std_sort" "distinct (map snd (tree_to_vector t []))"
  shows "maxinfo_selector std_sort t cnt = maxinfo_selector stable_sort t cnt"
  using std_sort_distinct_infos [OF assms] by (simp add: maxinfo_selector_def)

lemma abcd_tree:
  "run avl_tree [Insert ''a'' (10::int), Insert ''b'' 30, Insert ''c'' 20, Insert ''d'' 5]
     = Some (Node ''b'' 30 (Node ''a'' 10 Null Null 1) (Node ''c'' 20 Null (Node ''d'' 5 Null Null 1) 2) 3)"
  by code_simp

lemma maxinfo_selector_example:
  assumes "std_sort_contract std_sort"
  shows "\<exists>t. run avl_tree [Insert ''a'' (10::int), Insert ''b'' 30, Insert ''c'' 20, Insert ''d'' 5] = Some t
           \<and> maxinfo_selector std_sort t 2 = [(''b'', 30), (''c'', 20)]"
proof -
  let ?t = "Node ''b'' (30::int) (Node ''a'' 10 Null Null 1) (Node ''c'' 20 Null (Node ''d'' 5 Null Null 1) 2) 3"
  have "distinct (map snd (tree_to_vector ?t []))" by (simp add: tree_to_vector_def)
  from maxinfo_selector_distinct_infos [OF assms this, of 2]
  have "maxinfo_selector std_sort ?t 2 = maxinfo_selector stable_sort ?t 2" .
  also have "\<dots> = [(''b'', 30), (''c'', 20)]" by code_simp
  finally show ?thesis using abcd_tree by simp
qed

lemma ties_tree:
  "run avl_tree [Insert ''a'' (10::int), Insert ''b'' 30, Insert ''c'' 30, Insert ''d'' 30]
     = Some (Node ''b'' 30 (Node ''a'' 10 Null Null 1) (Node ''c'' 30 Null (Node ''d'' 30 Null Null 1) 2) 3)"
  by code_simp

section \<open>The claims\<close>

text \<open>
  C1. Whatever sequence of \<^verbatim>\<open>insert\<close> and \<^verbatim>\<open>remove\<close> calls is applied to an empty
  tree, every call returns, and in the tree that results the keys of \<^verbatim>\<open>to_vector\<close> are
  strictly ascending, the cached height of every node is one more than the larger of its
  children's heights, and the heights of the children of every node differ by at most one.
\<close>

theorem invariants_after_operations:
  "\<exists>t. run avl_tree ops = Some t
     \<and> sorted_wrt (<) (map fst (tree_to_vector t []))
     \<and> heights_cached t \<and> balanced t"
proof -
  have "ordered (avl_tree :: ('a, 'b) avl_tree)" "avl (avl_tree :: ('a, 'b) avl_tree)"
    by (simp_all add: avl_tree_def)
  from run_invariant [OF this, of ops] show ?thesis
    by (auto simp: ordered_def entries_def tree_to_vector_def avl_def)
qed

theorem invariants_after_operations_witness:
  "\<exists>t. run avl_tree [Insert (3::int) ''c'', Insert 2 ''b'', Insert 1 ''a'', Remove 2, Insert 5 ''e''] = Some t
     \<and> sorted_wrt (<) (map fst (tree_to_vector t []))
     \<and> heights_cached t \<and> balanced t"
  by (rule invariants_after_operations)

text \<open>
  C6. Inserting the keys 3, 2, 1 into an empty tree gives the in-order sequence 1, 2, 3
  with the key 2 at the root, and the tree is the right rotation of the chain 3, 2, 1;
  inserting 30, 10, 20 gives 10, 20, 30 with 20 at the root, by a left rotation of the
  left child followed by a right rotation; inserting 10, 30, 20 gives 10, 20, 30 with 20
  at the root, by a right rotation of the right child followed by a left rotation.  The
  infos are arbitrary.
\<close>

theorem rotation_cases:
  "(\<exists>t. run avl_tree [Insert (3::int) a, Insert 2 b, Insert 1 c] = Some t
      \<and> map fst (tree_to_vector t []) = [1, 2, 3] \<and> root_key t = Some 2
      \<and> rotate_right (Node 3 a (Node 2 b (Node 1 c Null Null 1) Null 2) Null 3) = Some t)
   \<and> (\<exists>t. run avl_tree [Insert (30::int) a, Insert 10 b, Insert 20 c] = Some t
      \<and> map fst (tree_to_vector t []) = [10, 20, 30] \<and> root_key t = Some 20
      \<and> rotate_left (Node 10 b Null (Node 20 c Null Null 1) 2)
            \<bind> (\<lambda>l'. rotate_right (Node 30 a l' Null 3)) = Some t)
   \<and> (\<exists>t. run avl_tree [Insert (10::int) a, Insert 30 b, Insert 20 c] = Some t
      \<and> map fst (tree_to_vector t []) = [10, 20, 30] \<and> root_key t = Some 20
      \<and> rotate_right (Node 30 b (Node 20 c Null Null 1) Null 2)
            \<bind> (\<lambda>r'. rotate_left (Node 10 a Null r' 3)) = Some t)"
  by (simp add: avl_tree_def insert_tree_def tree_to_vector_def rebalance.simps and_then_def)

theorem rotation_cases_witness:
  "(\<exists>t. run avl_tree [Insert (3::int) ''c'', Insert 2 ''b'', Insert 1 ''a''] = Some t
      \<and> tree_to_vector t [] = [(1, ''a''), (2, ''b''), (3, ''c'')] \<and> root_key t = Some 2)
   \<and> (\<exists>t. run avl_tree [Insert (30::int) ''c'', Insert 10 ''b'', Insert 20 ''a''] = Some t
      \<and> tree_to_vector t [] = [(10, ''b''), (20, ''a''), (30, ''c'')] \<and> root_key t = Some 20)
   \<and> (\<exists>t. run avl_tree [Insert (10::int) ''c'', Insert 30 ''b'', Insert 20 ''a''] = Some t
      \<and> tree_to_vector t [] = [(10, ''c''), (20, ''a''), (30, ''b'')] \<and> root_key t = Some 20)"
  using rotation_cases [of "''c''" "''b''" "''a''"]
  by (auto simp: tree_to_vector_def)

text \<open>
  The remaining claims are about ``every \<^verbatim>\<open>avl_tree\<close>''.  The root of an object is
  private, so the trees an object can hold are those its member functions build, and
  they all satisfy \<open>ordered\<close> and \<open>avl\<close> (\<open>run_invariant\<close> above for \<^verbatim>\<open>insert\<close> and
  \<^verbatim>\<open>remove\<close>, \<open>ordered_assign_info\<close> and \<open>avl_assign_info\<close> for a write through
  \<^verbatim>\<open>operator[]\<close>).  These two predicates are the hypotheses below.
\<close>

text \<open>
  C3. If the key is in the tree, \<^verbatim>\<open>insert(key, info)\<close> returns, \<^verbatim>\<open>size()\<close> is as before,
  no key occurs twice in the traversal, the traversal is the old one with the info of the
  key replaced, and \<^verbatim>\<open>search(key, _)\<close> finds the new info.
\<close>

theorem insert_existing_key:
  assumes "ordered t" "avl t" "key \<in> fst ` set (tree_to_vector t [])"
  shows "\<exists>t'. insert_tree t key info = Some t'
           \<and> size_tree t' = size_tree t
           \<and> distinct (map fst (tree_to_vector t' []))
           \<and> tree_to_vector t' [] = set_info key info (tree_to_vector t [])
           \<and> (\<forall>d. search t' key d = (True, info))"
proof -
  let ?t' = "assign_info t key info"
  from assms have ins: "insert_tree t key info = Some ?t'"
    by (simp add: insert_tree_def insert_node_present tree_to_vector_def entries_def)
  have ent: "entries ?t' = set_info key info (entries t)"
    using assms(1) by (rule entries_assign_info)
  have ord: "ordered ?t'" using assms(1) by (rule ordered_assign_info)
  then have "distinct (map fst (entries ?t'))"
    by (simp add: ordered_def strict_sorted_iff)
  moreover have "length (entries ?t') = length (entries t)"
    using ent by (simp add: set_info_def)
  moreover have "key \<in> fst ` set (entries t)"
    using assms(3) by (simp add: tree_to_vector_def entries_def)
  then have "search ?t' key d = (True, info)" for d
    by (simp add: search_map_of [OF ord] ent map_of_set_info)
  ultimately show ?thesis
    using ins ent by (simp add: size_tree_def tree_to_vector_def entries_def)
qed

theorem insert_existing_key_witness:
  "\<exists>t'. insert_tree (Node (2::int) ''two'' (Node 1 ''one'' Null Null 1) Null 2) 1 ''uno'' = Some t'
     \<and> size_tree t' = 2
     \<and> tree_to_vector t' [] = [(1, ''uno''), (2, ''two'')]
     \<and> search t' 1 ''?'' = (True, ''uno'')"
  using insert_existing_key
    [of "Node (2::int) ''two'' (Node 1 ''one'' Null Null 1) Null 2" 1 "''uno''"]
  by (auto simp: ordered_def size_tree_def tree_to_vector_def set_info_def)

text \<open>
  C4. \<^verbatim>\<open>remove(key)\<close> returns; afterwards \<^verbatim>\<open>search(key, _)\<close> returns false and leaves
  its output parameter alone, and for every other key \<^verbatim>\<open>search\<close> gives what it gave
  before: the keys that were present are found with the info they had.  (The key removed
  need not have been present for this.)
\<close>

theorem remove_then_search:
  assumes "ordered t" "avl t"
  shows "\<exists>t'. remove_tree t key = Some t'
           \<and> (\<forall>d. search t' key d = (False, d))
           \<and> (\<forall>k d. k \<noteq> key \<longrightarrow> search t' k d = search t k d)"
proof -
  from remove_node_ok [OF assms, of key] obtain t' where t':
    "remove_node t key = Some t'" "entries t' = drop_key key (entries t)" by blast
  from assms(1) t'(2) have ord: "ordered t'"
    using sorted_drop_key [of "entries t" key] by (simp add: ordered_def)
  have "search t' key d = (False, d)" for d
    by (simp add: search_map_of [OF ord] t'(2) map_of_drop_key)
  moreover have "search t' k d = search t k d" if "k \<noteq> key" for k d
    using that by (simp add: search_map_of [OF ord] search_map_of [OF assms(1)] t'(2)
        map_of_drop_key)
  ultimately show ?thesis using t'(1) by (simp add: remove_tree_def)
qed

theorem remove_then_search_witness:
  "\<exists>t'. remove_tree (Node (2::int) ''two'' (Node 1 ''one'' Null Null 1) Null 2) 2 = Some t'
     \<and> search t' 2 ''?'' = (False, ''?'')
     \<and> search t' 1 ''?'' = (True, ''one'')"
  using remove_then_search
    [of "Node (2::int) ''two'' (Node 1 ''one'' Null Null 1) Null 2" 2]
  by (auto simp: ordered_def search_def)

text \<open>
  C5. If the key is not in the tree, \<^verbatim>\<open>remove(key)\<close> returns and the tree is the same
  tree: the same nodes in the same shape with the same cached heights, hence the same
  traversal.  The empty tree is the case \<open>t = Null\<close>.
\<close>

theorem remove_absent_key:
  assumes "ordered t" "avl t" "key \<notin> fst ` set (tree_to_vector t [])"
  shows "remove_tree t key = Some t"
  using assms by (simp add: remove_tree_def remove_node_absent tree_to_vector_def entries_def)

theorem remove_absent_key_witness:
  "remove_tree (Node (2::int) ''two'' (Node 1 ''one'' Null Null 1) Null 2) 5
     = Some (Node 2 ''two'' (Node 1 ''one'' Null Null 1) Null 2)
   \<and> remove_tree (Null :: (int, string) avl_tree) 5 = Some Null"
  using remove_absent_key [of "Node (2::int) ''two'' (Node 1 ''one'' Null Null 1) Null 2" 5]
    remove_absent_key [of "Null :: (int, string) avl_tree" 5]
  by (simp add: ordered_def tree_to_vector_def)

text \<open>
  C9. If the key is not in the tree, the read-only \<^verbatim>\<open>operator[]\<close> returns the static
  \<open>dummy\<close>.  The function is \<^verbatim>\<open>const\<close> and has no other result: the tree is not
  touched.
\<close>

theorem subscript_const_missing_key:
  assumes "ordered t" "key \<notin> fst ` set (tree_to_vector t [])"
  shows "subscript_const t key dummy = dummy"
  using assms
  by (simp add: subscript_const_def find_node_absent tree_to_vector_def entries_def)

theorem subscript_const_missing_key_witness:
  "subscript_const (Node (2::int) ''two'' (Node 1 ''one'' Null Null 1) Null 2) 5 [] = []"
  using subscript_const_missing_key
    [of "Node (2::int) ''two'' (Node 1 ''one'' Null Null 1) Null 2" 5 "[]"]
  by (simp add: ordered_def tree_to_vector_def)

text \<open>
  C10. If the key is not in the tree, \<^verbatim>\<open>search(key, info)\<close> returns false and the
  caller's \<open>info\<close> is what it was.  The function is \<^verbatim>\<open>const\<close>: the tree is not touched.
\<close>

theorem search_missing_key:
  assumes "ordered t" "key \<notin> fst ` set (tree_to_vector t [])"
  shows "search t key info_out = (False, info_out)"
  using assms by (simp add: search_def find_node_absent tree_to_vector_def entries_def)

theorem search_missing_key_witness:
  "search (Node (2::int) ''two'' (Node 1 ''one'' Null Null 1) Null 2) 5 ''before''
     = (False, ''before'')"
  using search_missing_key
    [of "Node (2::int) ''two'' (Node 1 ''one'' Null Null 1) Null 2" 5 "''before''"]
  by (simp add: ordered_def tree_to_vector_def)

text \<open>
  C8. The mutable \<^verbatim>\<open>operator[](key)\<close> returns (no null pointer is dereferenced, and
  there is no failure for a key that is missing).  Afterwards the tree is a valid tree
  with the key in it, and the reference returned is to the info \<^verbatim>\<open>search\<close> finds for the
  key.  If the key was there, the tree is as before; if not, the info is the default value
  and the traversal is the old one with the entry of key and default value put in.  An
  assignment through the reference changes the info of the key and nothing else.
\<close>

theorem subscript_get_or_insert:
  assumes "ordered t" "avl t"
  shows "\<exists>t' i. subscript t key dflt = Some (t', i)
           \<and> sorted_wrt (<) (map fst (tree_to_vector t' [])) \<and> heights_cached t' \<and> balanced t'
           \<and> key \<in> fst ` set (tree_to_vector t' [])
           \<and> (\<forall>d. search t' key d = (True, i))
           \<and> (if key \<in> fst ` set (tree_to_vector t []) then t' = t
               else i = dflt \<and> tree_to_vector t' [] = put_entry key dflt (tree_to_vector t []))
           \<and> (\<forall>v d. search (assign_info t' key v) key d = (True, v))
           \<and> (\<forall>v. tree_to_vector (assign_info t' key v) [] = set_info key v (tree_to_vector t' []))"
proof -
  from subscript_ok [OF assms, of key dflt] obtain t' i where s:
    "subscript t key dflt = Some (t', i)" "ordered t'" "avl t'"
    "map_of (entries t') key = Some i"
    "if key \<in> fst ` set (entries t) then t' = t
     else i = dflt \<and> entries t' = put_entry key dflt (entries t)" by blast
  have mem: "key \<in> fst ` set (entries t')"
    using s(4) by (metis map_of_eq_None_iff option.distinct(1))
  have found: "search t' key d = (True, i)" for d
    by (simp add: search_map_of [OF s(2)] s(4))
  have written: "search (assign_info t' key v) key d = (True, v)" for v d
    using mem
    by (simp add: search_map_of [OF ordered_assign_info [OF s(2)]]
        entries_assign_info [OF s(2)] map_of_set_info)
  have ent: "entries (assign_info t' key v) = set_info key v (entries t')" for v
    using s(2) by (rule entries_assign_info)
  have inv: "sorted_wrt (<) (map fst (entries t'))" "heights_cached t'" "balanced t'"
    using s(2,3) by (simp_all add: ordered_def avl_def)
  show ?thesis
    using s(1,5) inv mem found written ent
    unfolding tree_to_vector_def entries_def [symmetric]
    by (intro exI [of _ t'] exI [of _ i]) simp
qed

theorem subscript_get_or_insert_witness:
  "\<exists>t' i. subscript (Node (2::int) ''two'' (Node 1 ''one'' Null Null 1) Null 2) 3 [] = Some (t', i)
     \<and> i = [] \<and> tree_to_vector t' [] = [(1, ''one''), (2, ''two''), (3, [])]
     \<and> search t' 3 ''?'' = (True, [])
     \<and> search (assign_info t' 3 ''three'') 3 ''?'' = (True, ''three'')"
  using subscript_get_or_insert
    [of "Node (2::int) ''two'' (Node 1 ''one'' Null Null 1) Null 2" 3 "[]"]
  by (auto simp: ordered_def tree_to_vector_def put_entry_def)


text \<open>
  C7. \<^verbatim>\<open>count_words\<close> returns for every input.  The result is a valid tree whose keys
  are the cleaned tokens of the input, and \<^verbatim>\<open>search\<close> finds nothing for any other word.
  For a cleaned token that occurs fewer than \<open>2^31\<close> times, \<^verbatim>\<open>search\<close> finds the number
  of times it occurs among the cleaned tokens; in general it finds that number as a
  32-bit \<^verbatim>\<open>int\<close>.  If no character of the input is alphanumeric the tree is empty.  The
  two inputs of the specification give the two entries \<open>hello \<mapsto> 2\<close>, \<open>world \<mapsto> 2\<close> and
  the empty tree.

  As the claim is written, for every input and with the number of occurrences itself, it
  fails: on the input that is \<open>2^31\<close> times the word \<open>a\<close>, each followed by a space, the
  counter of \<open>a\<close> has wrapped around to \<open>- 2^31\<close>.
\<close>

theorem count_words_counts:
  "(\<exists>t. count_words is = Some t
       \<and> sorted_wrt (<) (map fst (tree_to_vector t [])) \<and> heights_cached t \<and> balanced t
       \<and> fst ` set (tree_to_vector t []) = set (cleaned_tokens is)
       \<and> (\<forall>w d. search t w d =
            (if w \<in> set (cleaned_tokens is)
             then (True, int32 (int (count_list (cleaned_tokens is) w))) else (False, d)))
       \<and> (\<forall>w d. w \<in> set (cleaned_tokens is) \<and> count_list (cleaned_tokens is) w < 2147483648
            \<longrightarrow> search t w d = (True, int (count_list (cleaned_tokens is) w))))
   \<and> ((\<forall>c\<in>set is. \<not> isalnum c) \<longrightarrow> count_words is = Some avl_tree)
   \<and> map_option (\<lambda>t. tree_to_vector t []) (count_words ''Hello, world! World... hello!'')
       = Some [(''hello'', 2), (''world'', 2)]
   \<and> count_words ''!!! ??? ... ,,, ---'' = Some avl_tree"
proof -
  from count_words_general [of "is"] obtain t where t:
    "count_words is = Some t" "ordered t" "avl t"
    "fst ` set (entries t) = set (cleaned_tokens is)"
    "\<forall>w d. search t w d =
          (if w \<in> set (cleaned_tokens is)
           then (True, int32 (int (count_list (cleaned_tokens is) w))) else (False, d))" by blast
  have exact: "search t w d = (True, int (count_list (cleaned_tokens is) w))"
    if "w \<in> set (cleaned_tokens is)" "count_list (cleaned_tokens is) w < 2147483648" for w d
  proof -
    have "int32 (int (count_list (cleaned_tokens is) w)) = int (count_list (cleaned_tokens is) w)"
      using that(2) by (intro int32_id) simp_all
    with t(5) that(1) show ?thesis by simp
  qed
  have inv: "sorted_wrt (<) (map fst (tree_to_vector t []))" "heights_cached t" "balanced t"
    "fst ` set (tree_to_vector t []) = set (cleaned_tokens is)"
    using t(2,3,4) by (simp_all add: ordered_def avl_def entries_def tree_to_vector_def)
  have "\<exists>t. count_words is = Some t
       \<and> sorted_wrt (<) (map fst (tree_to_vector t [])) \<and> heights_cached t \<and> balanced t
       \<and> fst ` set (tree_to_vector t []) = set (cleaned_tokens is)
       \<and> (\<forall>w d. search t w d =
            (if w \<in> set (cleaned_tokens is)
             then (True, int32 (int (count_list (cleaned_tokens is) w))) else (False, d)))
       \<and> (\<forall>w d. w \<in> set (cleaned_tokens is) \<and> count_list (cleaned_tokens is) w < 2147483648
            \<longrightarrow> search t w d = (True, int (count_list (cleaned_tokens is) w)))"
    using t(1,5) inv exact by (intro exI [of _ t]) blast
  then show ?thesis
    using count_words_no_alnum [of "is"] count_words_hello count_words_punctuation
    by (simp add: avl_tree_def)
qed

theorem count_words_counts_witness:
  "\<exists>t. count_words ''To be, or not to BE?'' = Some t
     \<and> search t ''be'' 0 = (True, 2) \<and> search t ''not'' 0 = (True, 1)
     \<and> search t ''is'' 7 = (False, 7)
     \<and> fst ` set (tree_to_vector t []) = {''to'', ''be'', ''or'', ''not''}"
proof -
  have ws: "cleaned_tokens ''To be, or not to BE?'' = [''to'', ''be'', ''or'', ''not'', ''to'', ''be'']"
    by code_simp
  from conjunct1 [OF count_words_counts [of "''To be, or not to BE?''"]]
  obtain t where t: "count_words ''To be, or not to BE?'' = Some t"
    "fst ` set (tree_to_vector t []) = set (cleaned_tokens ''To be, or not to BE?'')"
    "\<And>w d. search t w d =
       (if w \<in> set (cleaned_tokens ''To be, or not to BE?'')
        then (True, int32 (int (count_list (cleaned_tokens ''To be, or not to BE?'') w)))
        else (False, d))"
    "\<And>w d. w \<in> set (cleaned_tokens ''To be, or not to BE?'')
        \<and> count_list (cleaned_tokens ''To be, or not to BE?'') w < 2147483648
       \<Longrightarrow> search t w d = (True, int (count_list (cleaned_tokens ''To be, or not to BE?'') w))"
    by (elim exE conjE) simp
  have "search t ''be'' 0 = (True, 2)" using t(4) [of "''be''" 0] unfolding ws by simp
  moreover have "search t ''not'' 0 = (True, 1)" using t(4) [of "''not''" 0] unfolding ws by simp
  moreover have "search t ''is'' 7 = (False, 7)" unfolding t(3) ws by simp
  moreover have "fst ` set (tree_to_vector t []) = {''to'', ''be'', ''or'', ''not''}"
    unfolding t(2) ws by auto
  ultimately show ?thesis using t(1) by simp
qed

theorem count_words_overflow:
  "count_words (concat (replicate 2147483648 ''a ''))
     = Some (Node ''a'' (- 2147483648) Null Null 1)
   \<and> count_list (cleaned_tokens (concat (replicate 2147483648 ''a ''))) ''a'' = 2147483648
   \<and> search (Node ''a'' (- 2147483648) Null Null 1) ''a'' 0 = (True, - 2147483648)"
proof -
  have "int32 (int 2147483648) = - 2147483648" by (simp add: int32_def)
  with count_words_a [of 2147483648]
  have "count_words (concat (replicate 2147483648 ''a ''))
      = Some (Node ''a'' (- 2147483648) Null Null 1)" by simp
  moreover have "count_list (cleaned_tokens (concat (replicate 2147483648 ''a ''))) ''a''
      = 2147483648"
    unfolding cleaned_tokens_a by (rule count_list_replicate)
  moreover have "search (Node ''a'' (- 2147483648) Null Null 1) ''a'' 0 = (True, - 2147483648)"
    by (simp add: search_def)
  ultimately show ?thesis by blast
qed

text \<open>
  C2. \<^verbatim>\<open>maxinfo_selector(tree, cnt)\<close> is to return the \<open>min cnt size\<close> entries of largest
  info in descending order of info, entries of equal info in the order of their keys.
  The first part holds for every \<^verbatim>\<open>std::sort\<close> (\<open>maxinfo_selector_contract\<close>), and so
  does the example of the specification, in which no two infos are equal
  (\<open>maxinfo_selector_example\<close>).  The order of entries of equal info is not determined
  by the source: it is the order in which \<^verbatim>\<open>std::sort\<close> leaves equivalent elements, which
  the standard does not fix.  On the tree of the repository's test
  \<^verbatim>\<open>test_maxinfo_selector_again\<close>, with the entries \<open>a:10\<close>, \<open>b:30\<close>, \<open>c:30\<close>, \<open>d:30\<close>,
  a stable sort gives \<open>b\<close>, \<open>c\<close>, as the test and the claim expect, and
  \<open>reversing_sort\<close>, which keeps the promise of \<^verbatim>\<open>std::sort\<close> as well, gives \<open>d\<close>, \<open>c\<close>.
\<close>

theorem maxinfo_selector_ties:
  "std_sort_contract reversing_sort
   \<and> (\<exists>t. run avl_tree [Insert ''a'' (10::int), Insert ''b'' 30, Insert ''c'' 30, Insert ''d'' 30] = Some t
        \<and> tree_to_vector t [] = [(''a'', 10), (''b'', 30), (''c'', 30), (''d'', 30)]
        \<and> maxinfo_selector stable_sort t 2 = [(''b'', 30), (''c'', 30)]
        \<and> maxinfo_selector reversing_sort t 2 = [(''d'', 30), (''c'', 30)])"
proof -
  let ?t = "Node ''b'' (30::int) (Node ''a'' 10 Null Null 1) (Node ''c'' 30 Null (Node ''d'' 30 Null Null 1) 2) 3"
  have "tree_to_vector ?t [] = [(''a'', 10), (''b'', 30), (''c'', 30), (''d'', 30)]"
    by (simp add: tree_to_vector_def)
  moreover have "maxinfo_selector stable_sort ?t 2 = [(''b'', 30), (''c'', 30)]" by code_simp
  moreover have "maxinfo_selector reversing_sort ?t 2 = [(''d'', 30), (''c'', 30)]" by code_simp
  ultimately show ?thesis using ties_tree reversing_sort_contract by simp
qed

theorem maxinfo_selector_ties_witness:
  "mset (reversing_sort (\<lambda>a b. snd a > snd b) [(''a'', 10::int), (''b'', 30)])
     = mset [(''a'', 10), (''b'', 30)]
   \<and> sorted_wrt (\<lambda>a b. \<not> snd b > snd a)
       (reversing_sort (\<lambda>a b. snd a > snd b) [(''a'', 10::int), (''b'', 30)])"
proof -
  have "std_sort_contract (reversing_sort :: _ \<Rightarrow> (string \<times> int) list \<Rightarrow> _)"
    using maxinfo_selector_ties by (rule conjunct1)
  moreover have "strict_weak_ordering (\<lambda>a b :: string \<times> int. snd a > snd b)"
    by (rule by_info_swo)
  ultimately show ?thesis unfolding std_sort_contract_def by blast
qed

end
